theory Spec2Isabelle
  imports Complex_Main "HOL-Library.Word" "HOL-Library.Mapping" "HOL-Library.AList_Mapping"
    "HOL-Library.Sublist" "HOL-Library.List_Lexorder" "HOL-Library.Product_Lexorder"
begin

section \<open>Strings\<close>

text \<open>
  A source string is modelled as a \<^typ>\<open>string\<close>: the list of its characters, each a
  code unit below 256. The character classes of the regular expressions are written out
  on character codes.
\<close>

definition code :: "char \<Rightarrow> nat" where
  "code c = of_char c"

text \<open>The class \<^verbatim>\<open>\w\<close>: ASCII letters, digits and the underscore.\<close>

definition isWordChar :: "char \<Rightarrow> bool" where
  "isWordChar c =
     ((48 \<le> code c \<and> code c \<le> 57) \<or> (65 \<le> code c \<and> code c \<le> 90) \<or> code c = 95 \<or>
      (97 \<le> code c \<and> code c \<le> 122))"

text \<open>\<^verbatim>\<open>tokens.join("")\<close>\<close>

definition join :: "string list \<Rightarrow> string" where
  "join ts = concat ts"

section \<open>Word-level three-way merge (merge/word-merge.ts)\<close>

subsection \<open>tokenize\<close>

text \<open>
  The loop over the characters of the text, with its three variables \<open>tokens\<close>,
  \<open>current\<close> and \<open>inWord\<close>; the push after the loop is the first equation.
\<close>

definition push_current :: "string list \<Rightarrow> string \<Rightarrow> string list" where
  "push_current tokens current = (if current \<noteq> [] then tokens @ [current] else tokens)"

fun tokenize_loop :: "string \<Rightarrow> string list \<Rightarrow> string \<Rightarrow> bool \<Rightarrow> string list" where
  "tokenize_loop [] tokens current inWord = push_current tokens current"
| "tokenize_loop (ch # rest) tokens current inWord =
     (if isWordChar ch \<and> \<not> inWord then tokenize_loop rest (push_current tokens current) [ch] True
      else if \<not> isWordChar ch \<and> inWord then tokenize_loop rest (push_current tokens current) [ch] False
      else tokenize_loop rest tokens (current @ [ch]) inWord)"

definition tokenize :: "string \<Rightarrow> string list" where
  "tokenize text = tokenize_loop text [] [] False"

subsection \<open>lcs\<close>

text \<open>
  The table \<open>dp\<close> is a list of rows. \<open>cell dp i j\<close> is the read
  \<^verbatim>\<open>dp[i]?.[j] ?? 0\<close>: zero outside the table. \<open>set_cell dp i j v\<close> is the assignment
  \<^verbatim>\<open>dp[i][j] = v\<close>.
\<close>

definition cell :: "'a::zero list list \<Rightarrow> nat \<Rightarrow> nat \<Rightarrow> 'a" where
  "cell dp i j = (if i < length dp \<and> j < length (dp ! i) then dp ! i ! j else 0)"

definition set_cell :: "'a list list \<Rightarrow> nat \<Rightarrow> nat \<Rightarrow> 'a \<Rightarrow> 'a list list" where
  "set_cell dp i j v = dp[i := (dp ! i)[j := v]]"

definition lcs_step :: "string list \<Rightarrow> string list \<Rightarrow> nat \<Rightarrow> nat list list \<Rightarrow> nat \<Rightarrow> nat list list" where
  "lcs_step a b i dp j =
     (if a ! (i - 1) = b ! (j - 1) then set_cell dp i j (cell dp (i - 1) (j - 1) + 1)
      else set_cell dp i j (max (cell dp (i - 1) j) (cell dp i (j - 1))))"

definition lcs_fill :: "string list \<Rightarrow> string list \<Rightarrow> nat list list" where
  "lcs_fill a b =
     foldl (\<lambda>dp i. foldl (lcs_step a b i) dp [1..<Suc (length b)])
       (replicate (Suc (length a)) (replicate (Suc (length b)) 0)) [1..<Suc (length a)]"

function lcs_backtrack ::
  "string list \<Rightarrow> string list \<Rightarrow> nat list list \<Rightarrow> nat \<Rightarrow> nat \<Rightarrow> string list \<Rightarrow> string list" where
  "lcs_backtrack a b dp i j result =
     (if i > 0 \<and> j > 0 then
        (if a ! (i - 1) = b ! (j - 1) then lcs_backtrack a b dp (i - 1) (j - 1) (a ! (i - 1) # result)
         else if cell dp (i - 1) j > cell dp i (j - 1) then lcs_backtrack a b dp (i - 1) j result
         else lcs_backtrack a b dp i (j - 1) result)
      else result)"
  by pat_completeness auto
termination
  by (relation "measure (\<lambda>(a, b, dp, i, j, result). i + j)") auto

declare lcs_backtrack.simps [simp del]

definition lcs :: "string list \<Rightarrow> string list \<Rightarrow> string list" where
  "lcs a b = lcs_backtrack a b (lcs_fill a b) (length a) (length b) []"

subsection \<open>diff2\<close>

datatype OpType = Keep | Delete | Insert

record DiffOp =
  optype :: OpType
  tokens :: "string list"

text \<open>
  The outer loop of \<open>diff2\<close> on the parts of the three arrays not yet consumed:
  \<open>os\<close> is \<open>original\<close> from \<open>oi\<close>, \<open>ms\<close> is \<open>modified\<close> from \<open>mi\<close> and \<open>cs\<close> is \<open>common\<close>
  from \<open>ci\<close>. \<open>pending cs\<close> is the condition of both inner loops on the element read.
  The operations are listed in the order the source pushes them.
\<close>

definition pending :: "string list \<Rightarrow> string \<Rightarrow> bool" where
  "pending cs x = (cs = [] \<or> x \<noteq> hd cs)"

definition emit :: "OpType \<Rightarrow> string list \<Rightarrow> DiffOp list" where
  "emit t ts = (if ts \<noteq> [] then [\<lparr>optype = t, tokens = ts\<rparr>] else [])"

function diff2_loop :: "string list \<Rightarrow> string list \<Rightarrow> string list \<Rightarrow> DiffOp list" where
  "diff2_loop os ms cs =
     (if os \<noteq> [] \<or> ms \<noteq> [] then
        emit Delete (takeWhile (pending cs) os) @ emit Insert (takeWhile (pending cs) ms) @
        (if cs \<noteq> [] then
           \<lparr>optype = Keep, tokens = [hd cs]\<rparr> #
           diff2_loop (tl (dropWhile (pending cs) os)) (tl (dropWhile (pending cs) ms)) (tl cs)
         else diff2_loop (dropWhile (pending cs) os) (dropWhile (pending cs) ms) cs)
      else [])"
  by pat_completeness auto
termination
proof (relation "measure (\<lambda>(os, ms, cs). length os + length ms)", goal_cases)
  case 1
  show ?case by simp
next
  case (2 os ms cs)
  have "length (tl (dropWhile (pending cs) os)) \<le> length os - 1"
    using length_dropWhile_le [of "pending cs" os] by simp
  moreover have "length (tl (dropWhile (pending cs) ms)) \<le> length ms - 1"
    using length_dropWhile_le [of "pending cs" ms] by simp
  ultimately show ?case using 2(1) by (cases os; cases ms) auto
next
  case (3 os ms cs)
  then have "dropWhile (pending cs) os = []" "dropWhile (pending cs) ms = []"
    by (auto simp: pending_def)
  with 3(1) show ?case by (cases os; cases ms) auto
qed

declare diff2_loop.simps [simp del]

definition diff2 :: "string list \<Rightarrow> string list \<Rightarrow> DiffOp list" where
  "diff2 original modified = diff2_loop original modified (lcs original modified)"

subsection \<open>wordMerge3Way\<close>

record ChangeInfo =
  deleted :: bool
  insertionBefore :: "string list option"
  insertionAfter :: "string list option"

text \<open>One entry of \<open>conflictRanges\<close>; the fields \<open>start\<close> and \<open>end\<close> of the source are \<open>range_start\<close> and \<open>range_end\<close>.\<close>

record ConflictRange =
  range_start :: nat
  range_end :: nat
  range_b :: string
  range_c :: string

record WordMergeResult =
  wm_merged :: string
  hasConflict :: bool
  conflictRanges :: "ConflictRange list"

text \<open>
  The loop that turns one diff into per-position changes. Its state is \<open>aIdx\<close>, the map
  \<open>bChanges\<close> (or \<open>cChanges\<close>) and the insertion before the first token. The test
  \<^verbatim>\<open>bChanges.size === 0\<close> is \<^const>\<open>Mapping.is_empty\<close>.
\<close>

type_synonym changes = "(nat, ChangeInfo) mapping"

definition mark_deleted :: "nat \<times> changes \<Rightarrow> string \<Rightarrow> nat \<times> changes" where
  "mark_deleted st tok =
     (case st of (aIdx, chg) \<Rightarrow>
        (aIdx + 1,
         Mapping.update aIdx \<lparr>deleted = True, insertionBefore = None, insertionAfter = None\<rparr> chg))"

definition change_step :: "nat \<times> changes \<times> string list \<Rightarrow> DiffOp \<Rightarrow> nat \<times> changes \<times> string list" where
  "change_step st op =
     (case st of (aIdx, chg, atStart) \<Rightarrow>
        (case optype op of
           Insert \<Rightarrow>
             if aIdx = 0 \<and> Mapping.is_empty chg then (aIdx, chg, tokens op)
             else if aIdx > 0 then
               (let prevChange =
                      (case Mapping.lookup chg (aIdx - 1) of
                         Some ci \<Rightarrow> ci
                       | None \<Rightarrow> \<lparr>deleted = False, insertionBefore = None, insertionAfter = None\<rparr>)
                in (aIdx, Mapping.update (aIdx - 1) (prevChange\<lparr>insertionAfter := Some (tokens op)\<rparr>) chg,
                    atStart))
             else (aIdx, chg, atStart)
         | Delete \<Rightarrow>
             (case foldl mark_deleted (aIdx, chg) (tokens op) of
                (aIdx', chg') \<Rightarrow> (aIdx', chg', atStart))
         | Keep \<Rightarrow> (aIdx + length (tokens op), chg, atStart)))"

definition collect_changes :: "DiffOp list \<Rightarrow> nat \<times> changes \<times> string list" where
  "collect_changes ops = foldl change_step (0, Mapping.empty, []) ops"

text \<open>The reads \<^verbatim>\<open>change?.deleted ?? false\<close> and \<^verbatim>\<open>change?.insertionAfter ?? []\<close>.\<close>

definition is_deleted :: "changes \<Rightarrow> nat \<Rightarrow> bool" where
  "is_deleted chg i = (case Mapping.lookup chg i of Some ci \<Rightarrow> deleted ci | None \<Rightarrow> False)"

definition insert_after :: "changes \<Rightarrow> nat \<Rightarrow> string list" where
  "insert_after chg i =
     (case Mapping.lookup chg i of
        Some ci \<Rightarrow> (case insertionAfter ci of Some ts \<Rightarrow> ts | None \<Rightarrow> [])
      | None \<Rightarrow> [])"

text \<open>The inline marker \<^verbatim>\<open><<<b|c>>>\<close> of a word-level conflict.\<close>

definition inline_marker :: "string \<Rightarrow> string \<Rightarrow> string" where
  "inline_marker bContent cContent = ''<<<'' @ bContent @ ''|'' @ cContent @ ''>>>''"

text \<open>
  The body of the loop over the tokens of A. The state is the output token list
  \<open>merged\<close>, \<open>conflictRanges\<close> and \<open>hasConflict\<close>.
\<close>

definition token_step ::
  "string list \<Rightarrow> changes \<Rightarrow> changes \<Rightarrow> string list \<times> ConflictRange list \<times> bool \<Rightarrow> nat \<Rightarrow>
   string list \<times> ConflictRange list \<times> bool" where
  "token_step tokensA bChanges cChanges st i =
     (case st of (mrg, ranges, conflict) \<Rightarrow>
        (let aToken = tokensA ! i;
             bDeleted = is_deleted bChanges i;
             cDeleted = is_deleted cChanges i;
             mrg1 = (if \<not> bDeleted \<and> \<not> cDeleted then mrg @ [aToken] else mrg);
             bInsertAfter = insert_after bChanges i;
             cInsertAfter = insert_after cChanges i
         in if bInsertAfter \<noteq> [] \<or> cInsertAfter \<noteq> [] then
              (if bInsertAfter \<noteq> [] \<and> cInsertAfter \<noteq> [] \<and> join bInsertAfter \<noteq> join cInsertAfter then
                 (mrg1 @ [inline_marker (join bInsertAfter) (join cInsertAfter)],
                  ranges @ [\<lparr>range_start = length mrg1, range_end = length mrg1 + 1,
                             range_b = join bInsertAfter, range_c = join cInsertAfter\<rparr>],
                  True)
               else (mrg1 @ bInsertAfter @ cInsertAfter, ranges, conflict))
            else (mrg1, ranges, conflict)))"

definition wordMerge3Way :: "string \<Rightarrow> string \<Rightarrow> string \<Rightarrow> WordMergeResult" where
  "wordMerge3Way a b c =
     (let tokensA = tokenize a;
          tokensB = tokenize b;
          tokensC = tokenize c;
          abDiff = diff2 tokensA tokensB;
          acDiff = diff2 tokensA tokensC
      in case collect_changes abDiff of (_, bChanges, bInsertionAtStart) \<Rightarrow>
         case collect_changes acDiff of (_, cChanges, cInsertionAtStart) \<Rightarrow>
         case foldl (token_step tokensA bChanges cChanges)
                (bInsertionAtStart @ cInsertionAtStart, [], False) [0..<length tokensA] of
           (mrg, ranges, conflict) \<Rightarrow>
             \<lparr>wm_merged = join mrg, hasConflict = conflict, conflictRanges = ranges\<rparr>)"

definition canMergeWithoutConflict :: "string \<Rightarrow> string \<Rightarrow> string \<Rightarrow> bool" where
  "canMergeWithoutConflict a b c = (\<not> hasConflict (wordMerge3Way a b c))"

section \<open>String operations of the host language\<close>

text \<open>The class \<^verbatim>\<open>\s\<close>, which is also the set that \<^verbatim>\<open>trim\<close> strips.\<close>

definition isSpace :: "char \<Rightarrow> bool" where
  "isSpace c = ((9 \<le> code c \<and> code c \<le> 13) \<or> code c = 32 \<or> code c = 160)"

definition isDigit :: "char \<Rightarrow> bool" where
  "isDigit c = (48 \<le> code c \<and> code c \<le> 57)"

definition isUpperAZ :: "char \<Rightarrow> bool" where
  "isUpperAZ c = (65 \<le> code c \<and> code c \<le> 90)"

definition trimStart :: "string \<Rightarrow> string" where
  "trimStart s = dropWhile isSpace s"

definition trimEnd :: "string \<Rightarrow> string" where
  "trimEnd s = rev (dropWhile isSpace (rev s))"

definition trim :: "string \<Rightarrow> string" where
  "trim s = trimEnd (trimStart s)"

text \<open>\<^verbatim>\<open>/\s/.test(s)\<close>\<close>

definition hasSpace :: "string \<Rightarrow> bool" where
  "hasSpace s = list_ex isSpace s"

fun startsWith :: "string \<Rightarrow> string \<Rightarrow> bool" where
  "startsWith s [] = True"
| "startsWith [] (p # ps) = False"
| "startsWith (x # xs) (p # ps) = (x = p \<and> startsWith xs ps)"

definition endsWith :: "string \<Rightarrow> string \<Rightarrow> bool" where
  "endsWith s p = startsWith (rev s) (rev p)"

text \<open>
  \<open>find_from p s k\<close> is the first position at or after \<open>k\<close> where \<open>p\<close> occurs, \<open>s\<close> being the
  text from position \<open>k\<close> on. \<^verbatim>\<open>text.indexOf(p, from)\<close> is \<open>indexOf\<close>, with \<open>None\<close> for -1.
\<close>

fun find_from :: "string \<Rightarrow> string \<Rightarrow> nat \<Rightarrow> nat option" where
  "find_from p [] k = (if p = [] then Some k else None)"
| "find_from p (x # xs) k = (if startsWith (x # xs) p then Some k else find_from p xs (Suc k))"

definition indexOf :: "string \<Rightarrow> string \<Rightarrow> nat \<Rightarrow> nat option" where
  "indexOf s p k =
     (if k \<le> length s then find_from p (drop k s) k
      else if p = [] then Some (length s) else None)"

text \<open>\<^verbatim>\<open>s.includes(p)\<close>\<close>

definition includesStr :: "string \<Rightarrow> string \<Rightarrow> bool" where
  "includesStr s p = (indexOf s p 0 \<noteq> None)"

text \<open>\<^verbatim>\<open>s.slice(i, j)\<close> for \<open>0 \<le> i\<close> and \<open>0 \<le> j\<close>.\<close>

definition slice :: "string \<Rightarrow> nat \<Rightarrow> nat \<Rightarrow> string" where
  "slice s i j = take (j - i) (drop i s)"

text \<open>\<^verbatim>\<open>toLowerCase\<close> on code units below 256.\<close>

definition lowerChar :: "char \<Rightarrow> char" where
  "lowerChar c =
     (if (65 \<le> code c \<and> code c \<le> 90) \<or> (192 \<le> code c \<and> code c \<le> 222 \<and> code c \<noteq> 215)
      then char_of (code c + 32) else c)"

definition toLowerCase :: "string \<Rightarrow> string" where
  "toLowerCase s = map lowerChar s"

text \<open>
  \<^verbatim>\<open>s.replace(pattern, replacement)\<close> with a string pattern: the first occurrence is
  replaced, and in the replacement \<^verbatim>\<open>$$\<close>, \<^verbatim>\<open>$&\<close>, \<^verbatim>\<open>$`\<close> and \<^verbatim>\<open>$'\<close> stand for a dollar sign, the
  matched text, the text before it and the text after it. With no capture group, a
  dollar sign before anything else stays as it is.
\<close>

fun substitution :: "string \<Rightarrow> string \<Rightarrow> nat \<Rightarrow> string \<Rightarrow> string" where
  "substitution m s pos [] = []"
| "substitution m s pos [x] = [x]"
| "substitution m s pos (x # y # r) =
     (if x = CHR ''$'' then
        (if y = CHR ''$'' then CHR ''$'' # substitution m s pos r
         else if y = CHR ''&'' then m @ substitution m s pos r
         else if y = CHR 0x60 then take pos s @ substitution m s pos r
         else if y = CHR 0x27 then drop (pos + length m) s @ substitution m s pos r
         else x # substitution m s pos (y # r))
      else x # substitution m s pos (y # r))"

definition replaceFirst :: "string \<Rightarrow> string \<Rightarrow> string \<Rightarrow> string" where
  "replaceFirst s p r =
     (case indexOf s p 0 of
        None \<Rightarrow> s
      | Some pos \<Rightarrow> take pos s @ substitution p s pos r @ drop (pos + length p) s)"

section \<open>Hashing (utils/hash.ts)\<close>

text \<open>FNV-1a on 32-bit words; \<^verbatim>\<open>Math.imul\<close> is the multiplication of \<^typ>\<open>32 word\<close>.\<close>

definition fnv_step :: "32 word \<Rightarrow> char \<Rightarrow> 32 word" where
  "fnv_step h c = (xor h (of_nat (code c))) * 16777619"

definition hexDigit :: "nat \<Rightarrow> char" where
  "hexDigit d = (if d < 10 then char_of (48 + d) else char_of (87 + d))"

definition toHex8 :: "32 word \<Rightarrow> string" where
  "toHex8 w = map (\<lambda>k. hexDigit (unat (and (drop_bit (4 * k) w) 15))) [7, 6, 5, 4, 3, 2, 1, 0]"

definition createHash :: "string \<Rightarrow> string" where
  "createHash input = toHex8 (foldl fnv_step 2166136261 input)"

section \<open>Segmentation (segmentation/index.ts)\<close>

text \<open>
  The metadata of a unit: a heading with its level, a list item with its \<open>ordered\<close> flag,
  a code block, or the mark of an unresolved conflict with its id (set by the merge).
\<close>

datatype Metadata = Heading nat | ListItem bool | CodeBlock | ConflictMark string

text \<open>The field \<open>end\<close> of the source is \<open>end_offset\<close> here.\<close>

record SemanticUnit =
  content :: string
  hash :: string
  index :: nat
  start :: nat
  end_offset :: nat
  prefix :: string
  suffix :: string
  metadata :: "Metadata option"

definition ABBREVIATIONS :: "string list" where
  "ABBREVIATIONS =
     [''Mr.'', ''Mrs.'', ''Ms.'', ''Dr.'', ''Prof.'', ''Sr.'', ''Jr.'', ''vs.'', ''etc.'', ''i.e.'',
      ''e.g.'', ''cf.'', ''al.'', ''Fig.'', ''fig.'', ''Vol.'', ''vol.'', ''No.'', ''no.'', ''pp.'', ''p.'']"

text \<open>
  \<open>normalizeForHash\<close>: lower case, every run of whitespace replaced by one space, every
  character that is neither a word character nor whitespace removed, then trimmed.
\<close>

function collapseSpaces :: "string \<Rightarrow> string" where
  "collapseSpaces [] = []"
| "collapseSpaces (x # xs) =
     (if isSpace x then CHR '' '' # collapseSpaces (dropWhile isSpace xs)
      else x # collapseSpaces xs)"
  by pat_completeness auto
termination
  by (relation "measure length") (auto simp: less_Suc_eq_le length_dropWhile_le)

definition normalizeForHash :: "string \<Rightarrow> string" where
  "normalizeForHash text =
     trim (filter (\<lambda>c. isWordChar c \<or> isSpace c) (collapseSpaces (toLowerCase text)))"

definition extractWhitespace :: "string \<Rightarrow> string \<times> string \<times> string" where
  "extractWhitespace text =
     (let pre = takeWhile isSpace text;
          suf = rev (takeWhile isSpace (rev text))
      in (pre, slice text (length pre) (length text - length suf), suf))"

subsection \<open>Splitting at sentence boundaries\<close>

text \<open>
  \<open>boundary_at s q\<close> is the end of the match of \<open>SENTENCE_BOUNDARY\<close> that starts at position
  \<open>q\<close> of \<open>s\<close>, if there is one. The three alternatives of the expression are tried in
  order: whitespace after a terminator and before a capital letter; the empty match after a
  terminator when only whitespace follows; the empty match after two newlines.
\<close>

definition isTerminator :: "char \<Rightarrow> bool" where
  "isTerminator c = (c = CHR ''.'' \<or> c = CHR ''!'' \<or> c = CHR ''?'')"

definition boundary_at :: "string \<Rightarrow> nat \<Rightarrow> nat option" where
  "boundary_at s q =
     (let k = length (takeWhile isSpace (drop q s)) in
      if q > 0 \<and> isTerminator (s ! (q - 1)) \<and> k \<ge> 1 \<and> q + k < length s \<and> isUpperAZ (s ! (q + k))
      then Some (q + k)
      else if q > 0 \<and> isTerminator (s ! (q - 1)) \<and> list_all isSpace (drop q s) then Some q
      else if q \<ge> 2 \<and> s ! (q - 1) = CHR 0x0A \<and> s ! (q - 2) = CHR 0x0A then Some q
      else None)"

text \<open>
  \<^verbatim>\<open>text.split(SENTENCE_BOUNDARY)\<close>: \<open>p\<close> is the end of the last separator and \<open>q\<close> the position
  tried next; a match that ends at \<open>p\<close> is skipped.
\<close>

function split_loop :: "string \<Rightarrow> nat \<Rightarrow> nat \<Rightarrow> string list" where
  "split_loop s p q =
     (if q < length s then
        (case boundary_at s q of
           None \<Rightarrow> split_loop s p (Suc q)
         | Some e \<Rightarrow> if e = p then split_loop s p (Suc q) else slice s p q # split_loop s e e)
      else [slice s p (length s)])"
  by pat_completeness auto
termination
proof (relation "measure (\<lambda>(s, p, q). 2 * (length s - q) + (if p = q then 0 else 1))", goal_cases)
  case 1
  show ?case by simp
next
  case (2 s p q)
  then show ?case by auto
next
  case (3 s p q e)
  then show ?case by auto
next
  case (4 s p q e)
  have "q \<le> e" using 4(2) by (auto simp: boundary_at_def Let_def split: if_splits)
  then show ?case using 4 by auto
qed

declare split_loop.simps [simp del]

definition splitBoundary :: "string \<Rightarrow> string list" where
  "splitBoundary text = split_loop text 0 0"

definition endsWithAbbr :: "string \<Rightarrow> bool" where
  "endsWithAbbr buffer =
     (let trimmedBuffer = trimEnd buffer in
      list_ex (\<lambda>abbr.
          endsWith trimmedBuffer abbr \<and>
          (let beforeAbbr = take (length trimmedBuffer - length abbr) trimmedBuffer in
           beforeAbbr = [] \<or> isSpace (last beforeAbbr) \<or> last beforeAbbr \<in> set '',;:(''))
        ABBREVIATIONS)"

fun sentence_loop :: "string list \<Rightarrow> string \<Rightarrow> string list" where
  "sentence_loop [] buffer = (if buffer \<noteq> [] then [buffer] else [])"
| "sentence_loop (part # parts) buffer =
     (let buffer' = buffer @ (if buffer \<noteq> [] then '' '' else []) @ part in
      if \<not> endsWithAbbr buffer' then buffer' # sentence_loop parts []
      else sentence_loop parts buffer')"

definition splitSentences :: "string \<Rightarrow> string list" where
  "splitSentences text = sentence_loop (filter (\<lambda>s. trim s \<noteq> []) (splitBoundary text)) []"

subsection \<open>Protecting code blocks\<close>

definition fence :: string where
  "fence = [CHR 0x60, CHR 0x60, CHR 0x60]"

definition placeholder :: string where
  "placeholder = CHR 0x00 # ''CODE_BLOCK_''"

function digits10 :: "nat \<Rightarrow> string" where
  "digits10 n = (if n < 10 then [char_of (48 + n)] else digits10 (n div 10) @ [char_of (48 + n mod 10)])"
  by pat_completeness auto
termination
  by (relation "measure id") auto

declare digits10.simps [simp del]

definition parseInt :: "string \<Rightarrow> nat" where
  "parseInt ds = foldl (\<lambda>n d. 10 * n + (code d - 48)) 0 ds"

text \<open>
  The replacement of every match of \<^verbatim>\<open>/```[\s\S]*?```/g\<close> by a numbered placeholder.
  \<open>blocks\<close> are the code blocks found so far; the result is the processed text and all
  code blocks.
\<close>

function extractBlocks :: "string \<Rightarrow> string list \<Rightarrow> string \<times> string list" where
  "extractBlocks [] blocks = ([], blocks)"
| "extractBlocks (x # xs) blocks =
     (case (if startsWith (x # xs) fence then find_from fence (drop 3 (x # xs)) 0 else None) of
        Some k \<Rightarrow>
          (case extractBlocks (drop (k + 6) (x # xs)) (blocks @ [take (k + 6) (x # xs)]) of
             (rest, blocks') \<Rightarrow>
               (placeholder @ digits10 (length blocks) @ [CHR 0x00] @ rest, blocks'))
      | None \<Rightarrow> (case extractBlocks xs blocks of (rest, blocks') \<Rightarrow> (x # rest, blocks')))"
  by pat_completeness auto
termination
  by (relation "measure (\<lambda>(s, blocks). length s)") auto

text \<open>
  The replacement of every match of \<^verbatim>\<open>/\u0000CODE_BLOCK_(\d+)\u0000/g\<close> in a part by the
  code block of that number, or by the empty string when there is none.
\<close>

function restoreBlocks :: "string list \<Rightarrow> string \<Rightarrow> string" where
  "restoreBlocks blocks [] = []"
| "restoreBlocks blocks (x # xs) =
     (let ds = takeWhile isDigit (drop (length placeholder) (x # xs));
          n = length placeholder + length ds
      in if startsWith (x # xs) placeholder \<and> ds \<noteq> [] \<and> startsWith (drop n (x # xs)) [CHR 0x00]
         then (if parseInt ds < length blocks then blocks ! parseInt ds else []) @
              restoreBlocks blocks (drop (Suc n) (x # xs))
         else x # restoreBlocks blocks xs)"
  by pat_completeness auto
termination
  by (relation "measure (\<lambda>(blocks, s). length s)") auto

definition splitPreservingCodeBlocks :: "string \<Rightarrow> (string \<Rightarrow> string list) \<Rightarrow> string list" where
  "splitPreservingCodeBlocks text splitter =
     (case extractBlocks text [] of
        (processedText, codeBlocks) \<Rightarrow> map (restoreBlocks codeBlocks) (splitter processedText))"

subsection \<open>segment, with the default options\<close>

definition detectMetadata :: "string \<Rightarrow> Metadata option" where
  "detectMetadata c =
     (let hashes = length (takeWhile (\<lambda>x. x = CHR ''#'') c);
          ds = length (takeWhile isDigit c)
      in if 1 \<le> hashes \<and> hashes \<le> 6 \<and> hashes < length c \<and> isSpace (c ! hashes)
         then Some (Heading hashes)
         else if 2 \<le> length c \<and> c ! 0 \<in> set ''-*+'' \<and> isSpace (c ! 1)
         then Some (ListItem False)
         else if 1 \<le> ds \<and> ds + 1 < length c \<and> c ! ds = CHR ''.'' \<and> isSpace (c ! (ds + 1))
         then Some (ListItem True)
         else if startsWith c fence then Some CodeBlock
         else None)"

text \<open>
  The body of the loop over \<open>rawParts\<close>; the state is \<open>units\<close> and \<open>currentOffset\<close>. Each
  \<^verbatim>\<open>continue\<close> of the source returns the state unchanged.
\<close>

definition segment_step :: "string \<Rightarrow> SemanticUnit list \<times> nat \<Rightarrow> string \<Rightarrow> SemanticUnit list \<times> nat" where
  "segment_step text st raw =
     (case st of (units, currentOffset) \<Rightarrow>
        if raw = [] then st
        else (case indexOf text raw currentOffset of
                None \<Rightarrow> st
              | Some idx \<Rightarrow>
                  (case extractWhitespace raw of (pre, content0, suf) \<Rightarrow>
                     let normalizedContent = trim content0 in
                     if normalizedContent = [] then st
                     else (units @
                             [\<lparr>content = normalizedContent,
                               hash = createHash (normalizeForHash normalizedContent),
                               index = length units,
                               start = idx,
                               end_offset = idx + length raw,
                               prefix = slice text currentOffset idx @ pre,
                               suffix = suf,
                               metadata = detectMetadata normalizedContent\<rparr>],
                           idx + length raw))))"

text \<open>The units of \<open>segment(text)\<close>; the result's \<open>original\<close> is \<open>text\<close> itself.\<close>

definition segment :: "string \<Rightarrow> SemanticUnit list" where
  "segment text =
     (case foldl (segment_step text) ([], 0) (splitPreservingCodeBlocks text splitSentences) of
        (units, currentOffset) \<Rightarrow>
          if units \<noteq> [] \<and> currentOffset < length text
          then butlast units @
               [(last units)\<lparr>suffix := suffix (last units) @ drop currentOffset text\<rparr>]
          else units)"

subsection \<open>reconstruct\<close>

text \<open>The loop of \<open>reconstruct\<close>: \<open>prev\<close> is the unit before, \<open>None\<close> at the first unit.\<close>

fun reconstruct_loop :: "string \<Rightarrow> SemanticUnit option \<Rightarrow> SemanticUnit list \<Rightarrow> string" where
  "reconstruct_loop result prev [] = result"
| "reconstruct_loop result prev (u # us) =
     (let result1 =
            (case prev of
               Some pu \<Rightarrow>
                 if result \<noteq> [] \<and> \<not> (hasSpace (suffix pu) \<or> hasSpace (prefix u))
                 then result @ '' '' else result
             | None \<Rightarrow> result)
      in reconstruct_loop (result1 @ prefix u @ content u @ suffix u) (Some u) us)"

definition reconstruct :: "SemanticUnit list \<Rightarrow> string" where
  "reconstruct units = reconstruct_loop [] None units"

section \<open>Similarity (utils/similarity.ts)\<close>

text \<open>
  Numbers are modelled as real numbers. The two errors the code throws are values of
  \<open>error\<close>: the dimension mismatch of \<open>cosineSimilarity\<close>, with the two lengths, and the
  unknown conflict id of \<open>resolveConflict\<close>.
\<close>

datatype error = DimensionMismatch nat nat | ConflictNotFound string

definition cosine_step :: "real list \<Rightarrow> real list \<Rightarrow> real \<times> real \<times> real \<Rightarrow> nat \<Rightarrow> real \<times> real \<times> real" where
  "cosine_step a b acc i =
     (case acc of (dotProduct, normA, normB) \<Rightarrow>
        (dotProduct + a ! i * b ! i, normA + a ! i * a ! i, normB + b ! i * b ! i))"

definition cosineSimilarity :: "real list \<Rightarrow> real list \<Rightarrow> error + real" where
  "cosineSimilarity a b =
     (if length a \<noteq> length b then Inl (DimensionMismatch (length a) (length b))
      else (case foldl (cosine_step a b) (0, 0, 0) [0..<length a] of
              (dotProduct, normA, normB) \<Rightarrow>
                (let magnitude = sqrt normA * sqrt normB in
                 if magnitude = 0 then Inr 0 else Inr (dotProduct / magnitude))))"

section \<open>Alignment (alignment/index.ts)\<close>

datatype PairType = Match | Insertion | Deletion | Modification

text \<open>The field \<open>type\<close> of the source is \<open>pair_type\<close> here; \<open>null\<close> is \<open>None\<close>.\<close>

record AlignedPair =
  source :: "SemanticUnit option"
  target :: "SemanticUnit option"
  similarity :: real
  pair_type :: PairType

record AlignmentResult =
  pairs :: "AlignedPair list"
  unmatchedSource :: "SemanticUnit list"
  unmatchedTarget :: "SemanticUnit list"

datatype Strategy = Sequential | Semantic | Hybrid

record AlignmentOptions =
  strategy :: Strategy
  matchThreshold :: real
  usePositionHints :: bool

definition DEFAULT_ALIGN_OPTIONS :: AlignmentOptions where
  "DEFAULT_ALIGN_OPTIONS = \<lparr>strategy = Hybrid, matchThreshold = 0.75, usePositionHints = True\<rparr>"

text \<open>
  The embedding provider is outside the program: it is a parameter, the function from the
  batch of texts to their vectors.
\<close>

type_synonym provider = "string list \<Rightarrow> real list list"

text \<open>An array read \<^verbatim>\<open>xs[i]\<close> that may be \<^verbatim>\<open>undefined\<close>.\<close>

definition nth_opt :: "'a list \<Rightarrow> nat \<Rightarrow> 'a option" where
  "nth_opt xs i = (if i < length xs then Some (xs ! i) else None)"

text \<open>The first error of a list of results, as the first exception thrown would be.\<close>

fun collect :: "(error + 'a) list \<Rightarrow> error + 'a list" where
  "collect [] = Inr []"
| "collect (x # xs) =
     (case x of
        Inl e \<Rightarrow> Inl e
      | Inr v \<Rightarrow> (case collect xs of Inl e \<Rightarrow> Inl e | Inr vs \<Rightarrow> Inr (v # vs)))"

definition matrix_cell :: "real list list \<Rightarrow> real list list \<Rightarrow> nat \<Rightarrow> nat \<Rightarrow> error + real" where
  "matrix_cell sourceEmbeddings targetEmbeddings i j =
     (case nth_opt sourceEmbeddings i of
        Some srcEmb \<Rightarrow>
          (case nth_opt targetEmbeddings j of
             Some tgtEmb \<Rightarrow> cosineSimilarity srcEmb tgtEmb
           | None \<Rightarrow> Inr 0)
      | None \<Rightarrow> Inr 0)"

definition similarityMatrix :: "nat \<Rightarrow> nat \<Rightarrow> real list list \<Rightarrow> real list list \<Rightarrow> error + real list list" where
  "similarityMatrix m n sourceEmbeddings targetEmbeddings =
     collect (map (\<lambda>i. collect (map (matrix_cell sourceEmbeddings targetEmbeddings i) [0..<n])) [0..<m])"

subsection \<open>sequentialAlign\<close>

datatype Action = NoAction | MatchAction | DeleteAction | InsertAction

text \<open>The read \<^verbatim>\<open>backtrack[i]?.[j]\<close>; \<open>NoAction\<close> is the empty string of the source.\<close>

definition action_at :: "Action list list \<Rightarrow> nat \<Rightarrow> nat \<Rightarrow> Action" where
  "action_at bt i j = (if i < length bt \<and> j < length (bt ! i) then bt ! i ! j else NoAction)"

definition seq_step ::
  "real list list \<Rightarrow> real \<Rightarrow> nat \<Rightarrow> real list list \<times> Action list list \<Rightarrow> nat \<Rightarrow>
   real list list \<times> Action list list" where
  "seq_step matrix thr i tabs j =
     (case tabs of (dp, bt) \<Rightarrow>
        (let sim = matrix ! (i - 1) ! (j - 1);
             matchScore = cell dp (i - 1) (j - 1) + (if sim \<ge> thr then sim else - 0.5);
             deleteScore = cell dp (i - 1) j - 0.1;
             insertScore = cell dp i (j - 1) - 0.1
         in if matchScore \<ge> deleteScore \<and> matchScore \<ge> insertScore
            then (set_cell dp i j matchScore, set_cell bt i j MatchAction)
            else if deleteScore \<ge> insertScore
            then (set_cell dp i j deleteScore, set_cell bt i j DeleteAction)
            else (set_cell dp i j insertScore, set_cell bt i j InsertAction)))"

definition seq_init :: "nat \<Rightarrow> nat \<Rightarrow> real list list \<times> Action list list" where
  "seq_init m n =
     (replicate (Suc m) (replicate (Suc n) 0),
      foldl (\<lambda>bt j. set_cell bt 0 j InsertAction)
        (foldl (\<lambda>bt i. set_cell bt i 0 DeleteAction)
           (replicate (Suc m) (replicate (Suc n) NoAction)) [1..<Suc m])
        [1..<Suc n])"

definition seq_fill :: "real list list \<Rightarrow> real \<Rightarrow> nat \<Rightarrow> nat \<Rightarrow> real list list \<times> Action list list" where
  "seq_fill matrix thr m n =
     foldl (\<lambda>tabs i. foldl (seq_step matrix thr i) tabs [1..<Suc n]) (seq_init m n) [1..<Suc m]"

definition matched_pair :: "SemanticUnit list \<Rightarrow> SemanticUnit list \<Rightarrow> real list list \<Rightarrow> real \<Rightarrow> nat \<Rightarrow> nat \<Rightarrow> AlignedPair" where
  "matched_pair src tgt matrix thr i j =
     \<lparr>source = nth_opt src (i - 1), target = nth_opt tgt (j - 1),
      similarity = matrix ! (i - 1) ! (j - 1),
      pair_type = (if matrix ! (i - 1) ! (j - 1) \<ge> thr then Match else Modification)\<rparr>"

definition deletion_pair :: "SemanticUnit option \<Rightarrow> AlignedPair" where
  "deletion_pair s = \<lparr>source = s, target = None, similarity = 0, pair_type = Deletion\<rparr>"

definition insertion_pair :: "SemanticUnit option \<Rightarrow> AlignedPair" where
  "insertion_pair t = \<lparr>source = None, target = t, similarity = 0, pair_type = Insertion\<rparr>"

text \<open>The backtracking loop; \<open>acc\<close> is \<open>pairs\<close>, to which the source prepends.\<close>

function seq_backtrack ::
  "SemanticUnit list \<Rightarrow> SemanticUnit list \<Rightarrow> real list list \<Rightarrow> real \<Rightarrow> Action list list \<Rightarrow>
   nat \<Rightarrow> nat \<Rightarrow> AlignedPair list \<Rightarrow> AlignedPair list" where
  "seq_backtrack src tgt matrix thr bt i j acc =
     (if i > 0 \<or> j > 0 then
        (if action_at bt i j = MatchAction \<and> i > 0 \<and> j > 0
         then seq_backtrack src tgt matrix thr bt (i - 1) (j - 1)
                (matched_pair src tgt matrix thr i j # acc)
         else if action_at bt i j = DeleteAction \<and> i > 0
         then seq_backtrack src tgt matrix thr bt (i - 1) j (deletion_pair (nth_opt src (i - 1)) # acc)
         else if j > 0
         then seq_backtrack src tgt matrix thr bt i (j - 1) (insertion_pair (nth_opt tgt (j - 1)) # acc)
         else acc)
      else acc)"
  by pat_completeness auto
termination
  by (relation "measure (\<lambda>(src, tgt, matrix, thr, bt, i, j, acc). i + j)") auto

declare seq_backtrack.simps [simp del]

definition sequentialAlign ::
  "SemanticUnit list \<Rightarrow> SemanticUnit list \<Rightarrow> real list list \<Rightarrow> AlignmentOptions \<Rightarrow> AlignmentResult" where
  "sequentialAlign src tgt matrix opts =
     \<lparr>pairs = seq_backtrack src tgt matrix (matchThreshold opts)
                (snd (seq_fill matrix (matchThreshold opts) (length src) (length tgt)))
                (length src) (length tgt) [],
      unmatchedSource = [], unmatchedTarget = []\<rparr>"

subsection \<open>semanticAlign\<close>

definition candidates :: "nat \<Rightarrow> nat \<Rightarrow> real list list \<Rightarrow> real \<Rightarrow> (nat \<times> nat \<times> real) list" where
  "candidates m n matrix thr =
     concat (map (\<lambda>i. concat (map (\<lambda>j. if matrix ! i ! j \<ge> thr then [(i, j, matrix ! i ! j)] else [])
                                [0..<n])) [0..<m])"

text \<open>The greedy loop; its state is \<open>pairs\<close>, \<open>matchedSource\<close> and \<open>matchedTarget\<close>.\<close>

definition greedy_step ::
  "SemanticUnit list \<Rightarrow> SemanticUnit list \<Rightarrow> AlignedPair list \<times> nat set \<times> nat set \<Rightarrow> nat \<times> nat \<times> real \<Rightarrow>
   AlignedPair list \<times> nat set \<times> nat set" where
  "greedy_step src tgt st cand =
     (case st of (ps, matchedSource, matchedTarget) \<Rightarrow>
      case cand of (i, j, sim) \<Rightarrow>
        if i \<notin> matchedSource \<and> j \<notin> matchedTarget
        then (ps @ [\<lparr>source = nth_opt src i, target = nth_opt tgt j, similarity = sim,
                     pair_type = (if sim \<ge> 0.99 then Match else Modification)\<rparr>],
              insert i matchedSource, insert j matchedTarget)
        else st)"

text \<open>
  The key of the final sort, \<^verbatim>\<open>target?.index ?? source?.index ?? 0\<close>. The sort of the
  host language is stable, as \<^const>\<open>sort_key\<close> is.
\<close>

definition pair_pos :: "AlignedPair \<Rightarrow> nat" where
  "pair_pos p =
     (case target p of
        Some t \<Rightarrow> index t
      | None \<Rightarrow> (case source p of Some s \<Rightarrow> index s | None \<Rightarrow> 0))"

definition semanticAlign ::
  "SemanticUnit list \<Rightarrow> SemanticUnit list \<Rightarrow> real list list \<Rightarrow> AlignmentOptions \<Rightarrow> AlignmentResult" where
  "semanticAlign src tgt matrix opts =
     (case foldl (greedy_step src tgt) ([], {}, {})
             (sort_key (\<lambda>(i, j, sim). - sim)
                (candidates (length src) (length tgt) matrix (matchThreshold opts))) of
        (ps, matchedSource, matchedTarget) \<Rightarrow>
          \<lparr>pairs =
             sort_key pair_pos
               (ps @
                map (\<lambda>i. deletion_pair (nth_opt src i))
                  (filter (\<lambda>i. i \<notin> matchedSource) [0..<length src]) @
                map (\<lambda>j. insertion_pair (nth_opt tgt j))
                  (filter (\<lambda>j. j \<notin> matchedTarget) [0..<length tgt])),
           unmatchedSource = [], unmatchedTarget = []\<rparr>)"

subsection \<open>hybridAlign\<close>

text \<open>
  \<^verbatim>\<open>array.indexOf(unit)\<close>. The source compares object identity; the units of one
  segmentation differ in their \<open>index\<close>, so equality of the records is the same test there.
\<close>

fun index_of :: "'a list \<Rightarrow> 'a \<Rightarrow> nat \<Rightarrow> nat option" where
  "index_of [] x k = None"
| "index_of (y # ys) x k = (if y = x then Some k else index_of ys x (Suc k))"

text \<open>
  The deletions and insertions of the sequential result are kept by reference and
  updated in place. The pairs are therefore a store indexed by position: \<open>d\<close> is the
  position of the deletion and \<open>k\<close> the position of the insertion in \<open>pairs\<close>.
\<close>

definition move_step ::
  "SemanticUnit list \<Rightarrow> SemanticUnit list \<Rightarrow> real list list \<Rightarrow> real \<Rightarrow> nat \<Rightarrow>
   AlignedPair list \<Rightarrow> nat \<Rightarrow> AlignedPair list" where
  "move_step src tgt matrix thr d ps k =
     (case source (ps ! d) of
        None \<Rightarrow> ps
      | Some delSource \<Rightarrow>
          (case target (ps ! k) of
             None \<Rightarrow> ps
           | Some insTarget \<Rightarrow>
               (case index_of src delSource 0 of
                  None \<Rightarrow> ps
                | Some srcIdx \<Rightarrow>
                    (case index_of tgt insTarget 0 of
                       None \<Rightarrow> ps
                     | Some tgtIdx \<Rightarrow>
                         if matrix ! srcIdx ! tgtIdx \<ge> thr then
                           (let ps1 = ps[d := (ps ! d)\<lparr>target := Some insTarget,
                                                      similarity := matrix ! srcIdx ! tgtIdx,
                                                      pair_type := Modification\<rparr>]
                            in ps1[k := (ps1 ! k)\<lparr>source := Some delSource,
                                                  pair_type := Modification\<rparr>])
                         else ps))))"

definition pair_key :: "AlignedPair \<Rightarrow> string" where
  "pair_key p =
     (case source p of Some s \<Rightarrow> hash s | None \<Rightarrow> ''null'') @ ''-'' @
     (case target p of Some t \<Rightarrow> hash t | None \<Rightarrow> ''null'')"

fun dedupe :: "string list \<Rightarrow> AlignedPair list \<Rightarrow> AlignedPair list" where
  "dedupe seen [] = []"
| "dedupe seen (p # ps) =
     (if pair_key p \<in> set seen then dedupe seen ps else p # dedupe (pair_key p # seen) ps)"

definition hybridAlign ::
  "SemanticUnit list \<Rightarrow> SemanticUnit list \<Rightarrow> real list list \<Rightarrow> AlignmentOptions \<Rightarrow> AlignmentResult" where
  "hybridAlign src tgt matrix opts =
     (let seqPairs = pairs (sequentialAlign src tgt matrix opts);
          deletions = filter (\<lambda>i. pair_type (seqPairs ! i) = Deletion) [0..<length seqPairs];
          insertions = filter (\<lambda>i. pair_type (seqPairs ! i) = Insertion) [0..<length seqPairs];
          moved = foldl (\<lambda>ps d. foldl (move_step src tgt matrix (matchThreshold opts) d) ps insertions)
                    seqPairs deletions
      in \<lparr>pairs = dedupe [] moved, unmatchedSource = [], unmatchedTarget = []\<rparr>)"

subsection \<open>align\<close>

definition align ::
  "provider \<Rightarrow> SemanticUnit list \<Rightarrow> SemanticUnit list \<Rightarrow> AlignmentOptions \<Rightarrow> error + AlignmentResult" where
  "align provide src tgt opts =
     (if src = [] \<and> tgt = [] then Inr \<lparr>pairs = [], unmatchedSource = [], unmatchedTarget = []\<rparr>
      else if src = [] then
        Inr \<lparr>pairs = map (\<lambda>t. insertion_pair (Some t)) tgt, unmatchedSource = [], unmatchedTarget = []\<rparr>
      else if tgt = [] then
        Inr \<lparr>pairs = map (\<lambda>s. deletion_pair (Some s)) src, unmatchedSource = [], unmatchedTarget = []\<rparr>
      else
        (let allEmbeddings = provide (map content src @ map content tgt);
             sourceEmbeddings = take (length src) allEmbeddings;
             targetEmbeddings = drop (length src) allEmbeddings
         in case similarityMatrix (length src) (length tgt) sourceEmbeddings targetEmbeddings of
              Inl e \<Rightarrow> Inl e
            | Inr matrix \<Rightarrow>
                Inr (case strategy opts of
                       Sequential \<Rightarrow> sequentialAlign src tgt matrix opts
                     | Semantic \<Rightarrow> semanticAlign src tgt matrix opts
                     | Hybrid \<Rightarrow> hybridAlign src tgt matrix opts)))"

section \<open>Three-way merge (merge/index.ts)\<close>

datatype ConflictStrategy = PreferA | PreferB | PreferC | Concatenate | Defer

datatype ResolutionSource = Ancestor | Base | User | Merged | External

text \<open>
  A conflict. The fields \<open>id\<close>, \<open>a\<close>, \<open>b\<close>, \<open>c\<close> of the source carry the prefix \<open>conflict_\<close>
  here, and the nested objects \<open>context\<close> and \<open>similarities\<close> are flattened. The optional
  \<open>suggestion\<close> is never set by the code and is left out.
\<close>

record Conflict =
  conflict_id :: string
  conflict_a :: string
  conflict_b :: string
  conflict_c :: string
  context_before :: string
  context_after :: string
  sim_aToB :: real
  sim_aToC :: real
  sim_bToC :: real

text \<open>The field \<open>source\<close> of a resolution is \<open>resolution_source\<close> here.\<close>

record Resolution =
  conflictId :: string
  resolved :: string
  resolution_source :: ResolutionSource
  confidence :: real

text \<open>The counter \<open>conflicts\<close> of the statistics is \<open>conflicts_seen\<close> here.\<close>

record Stats =
  unchanged :: nat
  upgraded :: nat
  preserved :: nat
  removed :: nat
  conflicts_seen :: nat
  autoResolved :: nat

record MergeResult =
  merged :: string
  conflicts :: "Conflict list"
  resolutions :: "Resolution list"
  stats :: Stats

definition formatConflictMarker :: "Conflict \<Rightarrow> string" where
  "formatConflictMarker conflict =
     ''<<<<<<< B'' @ [CHR 0x0A] @ conflict_b conflict @ [CHR 0x0A] @ ''======='' @ [CHR 0x0A] @
     conflict_c conflict @ [CHR 0x0A] @ ''>>>>>>> C''"

definition mk_resolution :: "Conflict \<Rightarrow> string \<Rightarrow> ResolutionSource \<Rightarrow> real \<Rightarrow> Resolution" where
  "mk_resolution conflict text src conf =
     \<lparr>conflictId = conflict_id conflict, resolved = text, resolution_source = src, confidence = conf\<rparr>"

definition tryAutoResolve :: "Conflict \<Rightarrow> ConflictStrategy \<Rightarrow> Resolution option" where
  "tryAutoResolve conflict strat =
     (let bIsEmpty = (trim (conflict_b conflict) = []);
          cIsEmpty = (trim (conflict_c conflict) = []);
          bSubsumesC = (includesStr (conflict_b conflict) (conflict_c conflict) \<or> sim_bToC conflict > 0.95);
          cSubsumesB = (includesStr (conflict_c conflict) (conflict_b conflict) \<or> sim_bToC conflict > 0.95)
      in if \<not> bIsEmpty \<and> \<not> cIsEmpty \<and> bSubsumesC \<and> \<not> cSubsumesB
         then Some (mk_resolution conflict (conflict_b conflict) Base 0.9)
         else if \<not> bIsEmpty \<and> \<not> cIsEmpty \<and> cSubsumesB \<and> \<not> bSubsumesC
         then Some (mk_resolution conflict (conflict_c conflict) User 0.9)
         else (case strat of
                 PreferA \<Rightarrow> Some (mk_resolution conflict (conflict_a conflict) Ancestor 0.7)
               | PreferB \<Rightarrow> Some (mk_resolution conflict (conflict_b conflict) Base 0.7)
               | PreferC \<Rightarrow> Some (mk_resolution conflict (conflict_c conflict) User 0.7)
               | Concatenate \<Rightarrow>
                   Some (mk_resolution conflict
                           (conflict_b conflict @ [CHR 0x0A] @ conflict_c conflict) Merged 0.5)
               | Defer \<Rightarrow> None))"

definition hasConflicts :: "MergeResult \<Rightarrow> bool" where
  "hasConflicts result = (conflicts result \<noteq> [])"

definition resolveConflict :: "MergeResult \<Rightarrow> string \<Rightarrow> string \<Rightarrow> error + MergeResult" where
  "resolveConflict result cid resolution =
     (case find (\<lambda>c. conflict_id c = cid) (conflicts result) of
        None \<Rightarrow> Inl (ConflictNotFound cid)
      | Some conflict \<Rightarrow>
          Inr (result
                \<lparr>merged := replaceFirst (merged result) (formatConflictMarker conflict) resolution,
                 conflicts := filter (\<lambda>c. conflict_id c \<noteq> cid) (conflicts result),
                 resolutions := resolutions result @
                   [\<lparr>conflictId = cid, resolved = resolution, resolution_source = External,
                     confidence = 1\<rparr>]\<rparr>))"

subsection \<open>The state of one merge\<close>

text \<open>
  The variables that the loops of \<open>merge\<close> update. \<open>nextId\<close> counts the conflict ids
  generated so far: \<open>generateConflictId\<close> reads the clock and a random number, so the ids
  are a parameter \<open>gen\<close> of the model, the function from that count to the id.
\<close>

record MergeState =
  mergedUnits :: "SemanticUnit list"
  st_conflicts :: "Conflict list"
  st_resolutions :: "Resolution list"
  st_stats :: Stats
  processedBUnits :: "string set"
  processedCUnits :: "string set"
  nextId :: nat

definition initial_state :: MergeState where
  "initial_state =
     \<lparr>mergedUnits = [], st_conflicts = [], st_resolutions = [],
      st_stats = \<lparr>unchanged = 0, upgraded = 0, preserved = 0, removed = 0, conflicts_seen = 0,
                  autoResolved = 0\<rparr>,
      processedBUnits = {}, processedCUnits = {}, nextId = 0\<rparr>"

text \<open>\<^verbatim>\<open>aToB.get(hash)\<close>: the map is filled in the order of the pairs, so the last pair wins.\<close>

definition lookup_pair :: "AlignedPair list \<Rightarrow> string \<Rightarrow> AlignedPair option" where
  "lookup_pair ps h =
     find (\<lambda>p. case source p of Some s \<Rightarrow> hash s = h | None \<Rightarrow> False) (rev ps)"

definition pair_changed :: "AlignedPair option \<Rightarrow> SemanticUnit \<Rightarrow> bool" where
  "pair_changed change aUnit =
     (case change of
        None \<Rightarrow> False
      | Some p \<Rightarrow>
          pair_type p = Modification \<or> pair_type p = Deletion \<or>
          (case target p of Some t \<Rightarrow> content t \<noteq> content aUnit | None \<Rightarrow> False))"

definition change_target :: "AlignedPair option \<Rightarrow> SemanticUnit option" where
  "change_target change = (case change of None \<Rightarrow> None | Some p \<Rightarrow> target p)"

definition add_processed :: "SemanticUnit option \<Rightarrow> string set \<Rightarrow> string set" where
  "add_processed t done = (case t of Some u \<Rightarrow> insert (hash u) done | None \<Rightarrow> done)"

definition bump_removed :: "bool \<Rightarrow> Stats \<Rightarrow> Stats" where
  "bump_removed cond s = (if cond then s\<lparr>removed := removed s + 1\<rparr> else s)"

text \<open>
  The search for the insertion that stands for a changed unit when the alignment gave a
  deletion: the unprocessed insertion at the same index, else the first unprocessed one.
\<close>

definition find_insertion :: "AlignedPair list \<Rightarrow> string set \<Rightarrow> nat \<Rightarrow> SemanticUnit option" where
  "find_insertion ps done idx =
     (case find (\<lambda>p. pair_type p = Insertion \<and>
                     (case target p of Some t \<Rightarrow> hash t \<notin> done \<and> index t = idx | None \<Rightarrow> False)) ps of
        Some p \<Rightarrow> target p
      | None \<Rightarrow>
          (case find (\<lambda>p. pair_type p = Insertion \<and>
                          (case target p of Some t \<Rightarrow> hash t \<notin> done | None \<Rightarrow> False)) ps of
             Some p \<Rightarrow> target p
           | None \<Rightarrow> None))"

text \<open>The content of a side in the case where both sides changed, with the set of processed hashes.\<close>

definition side_content ::
  "AlignedPair list \<Rightarrow> AlignedPair option \<Rightarrow> string set \<Rightarrow> nat \<Rightarrow> string \<times> string set" where
  "side_content ps change done idx =
     (let content0 = (case change_target change of Some t \<Rightarrow> content t | None \<Rightarrow> [])
      in case change of
           None \<Rightarrow> (content0, done)
         | Some p \<Rightarrow>
             if pair_type p = Deletion \<and> target p = None then
               (case find_insertion ps done idx of
                  Some t \<Rightarrow> (content t, insert (hash t) done)
                | None \<Rightarrow> (content0, done))
             else (content0, done))"

definition resolved_unit :: "string \<Rightarrow> nat \<Rightarrow> SemanticUnit \<Rightarrow> SemanticUnit" where
  "resolved_unit text n aUnit =
     \<lparr>content = text, hash = createHash (toLowerCase text), index = n, start = 0,
      end_offset = length text, prefix = prefix aUnit, suffix = suffix aUnit, metadata = None\<rparr>"

definition push_text :: "string \<Rightarrow> SemanticUnit \<Rightarrow> SemanticUnit list \<Rightarrow> SemanticUnit list" where
  "push_text text aUnit units =
     (if text \<noteq> [] then units @ [resolved_unit text (length units) aUnit] else units)"

text \<open>The case of the loop over the units of A in which both sides changed.\<close>

definition both_changed ::
  "(nat \<Rightarrow> string) \<Rightarrow> ConflictStrategy \<Rightarrow> AlignedPair list \<Rightarrow> AlignedPair list \<Rightarrow>
   AlignedPair option \<Rightarrow> AlignedPair option \<Rightarrow> SemanticUnit \<Rightarrow> MergeState \<Rightarrow> MergeState" where
  "both_changed gen strat abPairs acPairs bChange cChange aUnit st =
     (case side_content abPairs bChange (processedBUnits st) (index aUnit) of (bContent, doneB) \<Rightarrow>
      case side_content acPairs cChange (processedCUnits st) (index aUnit) of (cContent, doneC) \<Rightarrow>
      let cRemovedUnit =
            (cContent = [] \<or> (case cChange of Some p \<Rightarrow> similarity p < 0.5 | None \<Rightarrow> False));
          wordMergeResult = wordMerge3Way (content aUnit) bContent cContent;
          mergedEqualsB = (wm_merged wordMergeResult = bContent);
          mergedEqualsC = (wm_merged wordMergeResult = cContent);
          isCleanMerge = (\<not> hasConflict wordMergeResult \<and> (mergedEqualsB \<or> mergedEqualsC));
          st1 = st\<lparr>processedBUnits := doneB, processedCUnits := doneC\<rparr>
      in if \<not> hasConflict wordMergeResult \<and> isCleanMerge then
           (let mergedContent =
                  (if strat = PreferB \<and> mergedEqualsC \<and> \<not> mergedEqualsB then bContent
                   else if strat = PreferC \<and> mergedEqualsB \<and> \<not> mergedEqualsC then cContent
                   else wm_merged wordMergeResult)
            in st1\<lparr>mergedUnits := push_text mergedContent aUnit (mergedUnits st1),
                    st_stats := (bump_removed
                                   (if mergedContent \<noteq> [] then cRemovedUnit \<and> mergedEqualsC
                                    else cRemovedUnit) (st_stats st1))
                                \<lparr>autoResolved := autoResolved (st_stats st1) + 1\<rparr>,
                    processedCUnits := add_processed (change_target cChange) doneC\<rparr>)
         else if \<not> hasConflict wordMergeResult \<and> strat = Defer then
           (let mergedContent = wm_merged wordMergeResult
            in st1\<lparr>mergedUnits := push_text mergedContent aUnit (mergedUnits st1),
                    st_resolutions :=
                      (if mergedContent \<noteq> [] then
                         st_resolutions st1 @
                           [\<lparr>conflictId = gen (nextId st1), resolved = mergedContent,
                             resolution_source = Merged, confidence = 0.85\<rparr>]
                       else st_resolutions st1),
                    nextId := (if mergedContent \<noteq> [] then nextId st1 + 1 else nextId st1),
                    st_stats := (bump_removed (mergedContent = [] \<and> cRemovedUnit) (st_stats st1))
                                \<lparr>autoResolved := autoResolved (st_stats st1) + 1\<rparr>,
                    processedCUnits := add_processed (change_target cChange) doneC\<rparr>)
         else
           (let conflict =
                  \<lparr>conflict_id = gen (nextId st1), conflict_a = content aUnit,
                   conflict_b = bContent, conflict_c = cContent,
                   context_before = prefix aUnit, context_after = suffix aUnit,
                   sim_aToB = (case bChange of Some p \<Rightarrow> similarity p | None \<Rightarrow> 0),
                   sim_aToC = (case cChange of Some p \<Rightarrow> similarity p | None \<Rightarrow> 0),
                   sim_bToC = 0\<rparr>;
                st2 = st1\<lparr>nextId := nextId st1 + 1,
                          st_stats := (st_stats st1)\<lparr>conflicts_seen := conflicts_seen (st_stats st1) + 1\<rparr>\<rparr>
            in case tryAutoResolve conflict strat of
                 Some resolution \<Rightarrow>
                   st2\<lparr>st_resolutions := st_resolutions st2 @ [resolution],
                       mergedUnits := push_text (resolved resolution) aUnit (mergedUnits st2),
                       st_stats := (bump_removed
                                      (if resolved resolution \<noteq> []
                                       then cRemovedUnit \<and> resolution_source resolution = User
                                       else cRemovedUnit) (st_stats st2))
                                   \<lparr>autoResolved := autoResolved (st_stats st2) + 1\<rparr>,
                       processedBUnits := add_processed (change_target bChange) doneB,
                       processedCUnits := add_processed (change_target cChange) doneC\<rparr>
               | None \<Rightarrow>
                   st2\<lparr>st_conflicts := st_conflicts st2 @ [conflict],
                       mergedUnits := mergedUnits st2 @
                         [\<lparr>content = formatConflictMarker conflict,
                           hash = createHash (formatConflictMarker conflict),
                           index = length (mergedUnits st2), start = 0,
                           end_offset = length (formatConflictMarker conflict),
                           prefix = prefix aUnit, suffix = suffix aUnit,
                           metadata = Some (ConflictMark (conflict_id conflict))\<rparr>],
                       processedCUnits := add_processed (change_target cChange) doneC\<rparr>))"

text \<open>The body of the loop over the units of A.\<close>

definition unit_step ::
  "(nat \<Rightarrow> string) \<Rightarrow> ConflictStrategy \<Rightarrow> AlignedPair list \<Rightarrow> AlignedPair list \<Rightarrow>
   MergeState \<Rightarrow> SemanticUnit \<Rightarrow> MergeState" where
  "unit_step gen strat abPairs acPairs st aUnit =
     (let bChange = lookup_pair abPairs (hash aUnit);
          cChange = lookup_pair acPairs (hash aUnit);
          bChanged = pair_changed bChange aUnit;
          cChanged = pair_changed cChange aUnit
      in if \<not> bChanged \<and> \<not> cChanged then
           st\<lparr>mergedUnits := mergedUnits st @
                 [case change_target bChange of Some t \<Rightarrow> t | None \<Rightarrow> aUnit],
              processedBUnits := add_processed (change_target bChange) (processedBUnits st),
              st_stats := (st_stats st)\<lparr>unchanged := unchanged (st_stats st) + 1\<rparr>\<rparr>
         else if bChanged \<and> \<not> cChanged then
           (case change_target bChange of
              Some t \<Rightarrow>
                st\<lparr>mergedUnits := mergedUnits st @ [t],
                   processedBUnits := insert (hash t) (processedBUnits st),
                   st_stats := (st_stats st)\<lparr>upgraded := upgraded (st_stats st) + 1\<rparr>\<rparr>
            | None \<Rightarrow> st)
         else if \<not> bChanged \<and> cChanged then
           (case change_target cChange of
              Some t \<Rightarrow>
                st\<lparr>mergedUnits := mergedUnits st @ [t],
                   processedCUnits := insert (hash t) (processedCUnits st),
                   st_stats := (st_stats st)\<lparr>preserved := preserved (st_stats st) + 1\<rparr>\<rparr>
            | None \<Rightarrow> st\<lparr>st_stats := (st_stats st)\<lparr>removed := removed (st_stats st) + 1\<rparr>\<rparr>)
         else both_changed gen strat abPairs acPairs bChange cChange aUnit st)"

text \<open>
  Whether an insertion of one side replaces a unit that the other side deleted: a
  deletion of its own alignment within one index of the insertion, whose source the other
  alignment deleted too.
\<close>

definition deleted_nearby :: "AlignedPair list \<Rightarrow> AlignedPair list \<Rightarrow> nat \<Rightarrow> bool" where
  "deleted_nearby own other insertIdx =
     (case find (\<lambda>p. pair_type p = Deletion \<and>
                     (case source p of
                        Some s \<Rightarrow> (if index s \<ge> insertIdx then index s - insertIdx else insertIdx - index s) \<le> 1
                      | None \<Rightarrow> False)) own of
        Some near \<Rightarrow>
          (case source near of
             Some s \<Rightarrow>
               list_ex (\<lambda>p. pair_type p = Deletion \<and>
                            (case source p of Some s' \<Rightarrow> hash s' = hash s | None \<Rightarrow> False)) other
           | None \<Rightarrow> False)
      | None \<Rightarrow> False)"

definition c_insertion_step ::
  "ConflictStrategy \<Rightarrow> AlignedPair list \<Rightarrow> AlignedPair list \<Rightarrow> MergeState \<Rightarrow> AlignedPair \<Rightarrow> MergeState" where
  "c_insertion_step strat abPairs acPairs st pair =
     (case target pair of
        None \<Rightarrow> st
      | Some t \<Rightarrow>
          if pair_type pair = Insertion \<and> hash t \<notin> processedCUnits st then
            (if deleted_nearby acPairs abPairs (index t) \<and> strat = PreferB
             then st\<lparr>processedCUnits := insert (hash t) (processedCUnits st)\<rparr>
             else st\<lparr>mergedUnits := mergedUnits st @ [t],
                     processedCUnits := insert (hash t) (processedCUnits st),
                     st_stats := (st_stats st)\<lparr>preserved := preserved (st_stats st) + 1\<rparr>\<rparr>)
          else st)"

definition b_insertion_step ::
  "ConflictStrategy \<Rightarrow> AlignedPair list \<Rightarrow> AlignedPair list \<Rightarrow> SemanticUnit list \<Rightarrow>
   MergeState \<Rightarrow> AlignedPair \<Rightarrow> MergeState" where
  "b_insertion_step strat abPairs acPairs unitsC st pair =
     (case target pair of
        None \<Rightarrow> st
      | Some t \<Rightarrow>
          if pair_type pair = Insertion \<and> hash t \<notin> processedBUnits st then
            (if deleted_nearby abPairs acPairs (index t) \<and> strat = PreferC
             then st\<lparr>processedBUnits := insert (hash t) (processedBUnits st)\<rparr>
             else if \<not> list_ex (\<lambda>u. hash u = hash t) unitsC
             then st\<lparr>mergedUnits := mergedUnits st @ [t],
                     processedBUnits := insert (hash t) (processedBUnits st),
                     st_stats := (st_stats st)\<lparr>upgraded := upgraded (st_stats st) + 1\<rparr>\<rparr>
             else st)
          else st)"

text \<open>
  The final sort: by \<open>index\<close>, then by \<^verbatim>\<open>hash.localeCompare\<close>. A hash is eight lower-case
  hexadecimal digits, on which that comparison is the lexicographic order of the
  character codes. The sort of the host language is stable, as \<^const>\<open>sort_key\<close> is.
\<close>

definition unit_key :: "SemanticUnit \<Rightarrow> nat \<times> nat list" where
  "unit_key u = (index u, map code (hash u))"

definition sortUnits :: "SemanticUnit list \<Rightarrow> SemanticUnit list" where
  "sortUnits units = sort_key unit_key units"

text \<open>All the units that the three loops of \<open>merge\<close> emit, in the order of emission.\<close>

definition merge_loops ::
  "(nat \<Rightarrow> string) \<Rightarrow> ConflictStrategy \<Rightarrow> SemanticUnit list \<Rightarrow> SemanticUnit list \<Rightarrow>
   AlignedPair list \<Rightarrow> AlignedPair list \<Rightarrow> MergeState" where
  "merge_loops gen strat unitsA unitsC abPairs acPairs =
     foldl (b_insertion_step strat abPairs acPairs unitsC)
       (foldl (c_insertion_step strat abPairs acPairs)
          (foldl (unit_step gen strat abPairs acPairs) initial_state unitsA)
          acPairs)
       abPairs"

text \<open>
  \<open>merge\<close>. The embedding provider \<open>provide\<close> is the default provider of the program and
  \<open>gen\<close> gives the conflict ids. Both alignments run with the default options. \<open>strat\<close> is
  the conflict strategy after \<open>normalizeStrategy\<close>: \<open>PreferC\<close> when the option is not given. No
  other option is read.
\<close>

definition merge ::
  "provider \<Rightarrow> (nat \<Rightarrow> string) \<Rightarrow> ConflictStrategy \<Rightarrow> string \<Rightarrow> string \<Rightarrow> string \<Rightarrow>
   error + MergeResult" where
  "merge provide gen strat a b c =
     (case align provide (segment a) (segment b) DEFAULT_ALIGN_OPTIONS of
        Inl e \<Rightarrow> Inl e
      | Inr abAlignment \<Rightarrow>
          (case align provide (segment a) (segment c) DEFAULT_ALIGN_OPTIONS of
             Inl e \<Rightarrow> Inl e
           | Inr acAlignment \<Rightarrow>
               (let st = merge_loops gen strat (segment a) (segment c)
                           (pairs abAlignment) (pairs acAlignment)
                in Inr \<lparr>merged = reconstruct (sortUnits (mergedUnits st)),
                        conflicts = st_conflicts st,
                        resolutions = st_resolutions st,
                        stats = st_stats st\<rparr>)))"

section \<open>Properties of the word-level merge\<close>

lemma concat_push_current: "concat (push_current ts cur) = concat ts @ cur"
  by (simp add: push_current_def)

lemma tokenize_loop_concat:
  "concat (tokenize_loop s ts cur w) = concat ts @ cur @ s"
  by (induction s arbitrary: ts cur w) (simp_all add: concat_push_current)

lemma tokenize_concat: "concat (tokenize s) = s"
  by (simp add: tokenize_def tokenize_loop_concat)

lemma subseq_snoc: "subseq xs ys \<Longrightarrow> subseq xs (ys @ [y])"
  using list_emb_append_mono [of "(=)" xs ys "[]" "[y]"] by simp

lemma lcs_backtrack_subseq:
  "i \<le> length a \<Longrightarrow> j \<le> length b \<Longrightarrow>
   \<exists>pre. lcs_backtrack a b dp i j res = pre @ res \<and> subseq pre (take i a) \<and> subseq pre (take j b)"
proof (induction a b dp i j res rule: lcs_backtrack.induct)
  case (1 a b dp i j res)
  show ?case
  proof (cases "i > 0 \<and> j > 0")
    case False
    then show ?thesis by (subst lcs_backtrack.simps) auto
  next
    case pos: True
    then obtain i' j' where ij: "i = Suc i'" "j = Suc j'"
      by (cases i; cases j) auto
    have le: "i - 1 \<le> length a" "j - 1 \<le> length b" "i \<le> length a" "j \<le> length b"
      using "1.prems" by auto
    have ta: "take i a = take i' a @ [a ! i']" and tb: "take j b = take j' b @ [b ! j']"
      using "1.prems" ij by (simp_all add: take_Suc_conv_app_nth)
    show ?thesis
    proof (cases "a ! (i - 1) = b ! (j - 1)")
      case eq: True
      from "1.IH"(1) [OF pos eq le(1) le(2)] obtain pre where
        p: "lcs_backtrack a b dp (i - 1) (j - 1) (a ! (i - 1) # res) = pre @ a ! (i - 1) # res"
          "subseq pre (take (i - 1) a)" "subseq pre (take (j - 1) b)"
        by blast
      have "lcs_backtrack a b dp i j res = (pre @ [a ! i']) @ res"
        using p(1) pos eq ij by (subst lcs_backtrack.simps) simp
      moreover have "subseq (pre @ [a ! i']) (take i a)"
        using p(2) ij ta by (simp add: subseq_append)
      moreover have "subseq (pre @ [a ! i']) (take j b)"
        using p(3) ij tb eq by (simp add: subseq_append)
      ultimately show ?thesis by blast
    next
      case ne: False
      show ?thesis
      proof (cases "cell dp (i - 1) j > cell dp i (j - 1)")
        case gt: True
        from "1.IH"(2) [OF pos ne gt le(1) le(4)] obtain pre where
          p: "lcs_backtrack a b dp (i - 1) j res = pre @ res"
            "subseq pre (take (i - 1) a)" "subseq pre (take j b)"
          by blast
        have "lcs_backtrack a b dp i j res = pre @ res"
          using p(1) pos ne gt by (subst lcs_backtrack.simps) simp
        moreover have "subseq pre (take i a)"
          using p(2) ij ta by (simp add: subseq_snoc)
        ultimately show ?thesis using p(3) by blast
      next
        case nle: False
        from "1.IH"(3) [OF pos ne nle le(3) le(2)] obtain pre where
          p: "lcs_backtrack a b dp i (j - 1) res = pre @ res"
            "subseq pre (take i a)" "subseq pre (take (j - 1) b)"
          by blast
        have "lcs_backtrack a b dp i j res = pre @ res"
          using p(1) pos ne nle by (subst lcs_backtrack.simps) simp
        moreover have "subseq pre (take j b)"
          using p(3) ij tb by (simp add: subseq_snoc)
        ultimately show ?thesis using p(2) by blast
      qed
    qed
  qed
qed

lemma lcs_subseq: "subseq (lcs a b) a \<and> subseq (lcs a b) b"
  using lcs_backtrack_subseq [of "length a" a "length b" b "lcs_fill a b" "[]"]
  by (auto simp: lcs_def)

lemma pending_Cons: "pending (c # cs) x = (x \<noteq> c)"
  by (simp add: pending_def)

lemma subseq_Cons_split:
  "subseq (c # cs) os \<Longrightarrow>
   \<exists>pre rest. os = pre @ c # rest \<and> c \<notin> set pre \<and> subseq cs rest"
proof (induction os)
  case Nil
  then show ?case by simp
next
  case (Cons x os)
  show ?case
  proof (cases "x = c")
    case True
    with Cons.prems have "subseq cs os" by simp
    with True show ?thesis by (intro exI [of _ "[]"] exI [of _ os]) simp
  next
    case False
    with Cons.prems have "subseq (c # cs) os" by simp
    from Cons.IH [OF this] obtain pre rest where
      "os = pre @ c # rest" "c \<notin> set pre" "subseq cs rest" by blast
    with False show ?thesis by (intro exI [of _ "x # pre"] exI [of _ rest]) simp
  qed
qed

lemma takeWhile_split: "c \<notin> set pre \<Longrightarrow> takeWhile (\<lambda>x. x \<noteq> c) (pre @ c # rest) = pre"
  by (induction pre) auto

lemma dropWhile_split: "c \<notin> set pre \<Longrightarrow> dropWhile (\<lambda>x. x \<noteq> c) (pre @ c # rest) = c # rest"
  by (induction pre) auto

text \<open>tokens of the original and of the modified text that a list of operations stands for\<close>

definition src_tokens :: "DiffOp list \<Rightarrow> string list" where
  "src_tokens ops = concat (map (\<lambda>op. if optype op = Insert then [] else tokens op) ops)"

definition dst_tokens :: "DiffOp list \<Rightarrow> string list" where
  "dst_tokens ops = concat (map (\<lambda>op. if optype op = Delete then [] else tokens op) ops)"

lemma src_emit [simp]: "src_tokens (emit Delete ts) = ts" "src_tokens (emit Insert ts) = []"
  "dst_tokens (emit Delete ts) = []" "dst_tokens (emit Insert ts) = ts"
  by (simp_all add: src_tokens_def dst_tokens_def emit_def)

lemma src_append [simp]: "src_tokens (xs @ ys) = src_tokens xs @ src_tokens ys"
  "dst_tokens (xs @ ys) = dst_tokens xs @ dst_tokens ys"
  by (simp_all add: src_tokens_def dst_tokens_def)

lemma src_Keep [simp]: "src_tokens (\<lparr>optype = Keep, tokens = ts\<rparr> # ops) = ts @ src_tokens ops"
  "dst_tokens (\<lparr>optype = Keep, tokens = ts\<rparr> # ops) = ts @ dst_tokens ops"
  by (simp_all add: src_tokens_def dst_tokens_def)

lemma pending_Nil: "pending [] = (\<lambda>x. True)"
  by (simp add: fun_eq_iff pending_def)

lemma pending_Cons_fun: "pending (c # cs) = (\<lambda>x. x \<noteq> c)"
  by (simp add: fun_eq_iff pending_def)

lemma diff2_loop_empty: "diff2_loop [] [] cs = []"
  by (subst diff2_loop.simps) simp

lemma takeWhile_True: "takeWhile (\<lambda>x. True) xs = xs" "dropWhile (\<lambda>x. True) xs = []"
  by simp_all

lemma diff2_loop_Nil: "diff2_loop os ms [] = emit Delete os @ emit Insert ms"
proof (cases "os \<noteq> [] \<or> ms \<noteq> []")
  case True
  have "diff2_loop os ms [] =
        emit Delete (takeWhile (pending []) os) @ emit Insert (takeWhile (pending []) ms) @
        diff2_loop (dropWhile (pending []) os) (dropWhile (pending []) ms) []"
    by (rule trans [OF diff2_loop.simps]) (simp only: True if_True simp_thms if_False)
  then show ?thesis
    by (simp only: pending_Nil takeWhile_True diff2_loop_empty append_Nil2)
next
  case False
  then show ?thesis by (simp add: diff2_loop_empty emit_def)
qed

lemma diff2_loop_Cons:
  assumes "c \<notin> set p1" "c \<notin> set p2"
  shows "diff2_loop (p1 @ c # r1) (p2 @ c # r2) (c # cs) =
         emit Delete p1 @ emit Insert p2 @ \<lparr>optype = Keep, tokens = [c]\<rparr> # diff2_loop r1 r2 cs"
proof -
  have ne: "p1 @ c # r1 \<noteq> [] \<or> p2 @ c # r2 \<noteq> []" "c # cs \<noteq> []" by simp_all
  have "diff2_loop (p1 @ c # r1) (p2 @ c # r2) (c # cs) =
        emit Delete (takeWhile (pending (c # cs)) (p1 @ c # r1)) @
        emit Insert (takeWhile (pending (c # cs)) (p2 @ c # r2)) @
        \<lparr>optype = Keep, tokens = [hd (c # cs)]\<rparr> #
        diff2_loop (tl (dropWhile (pending (c # cs)) (p1 @ c # r1)))
          (tl (dropWhile (pending (c # cs)) (p2 @ c # r2))) (tl (c # cs))"
    by (rule trans [OF diff2_loop.simps]) (simp only: ne if_True not_False_eq_True simp_thms)
  then show ?thesis
    by (simp only: pending_Cons_fun takeWhile_split [OF assms(1)] takeWhile_split [OF assms(2)]
        dropWhile_split [OF assms(1)] dropWhile_split [OF assms(2)] list.sel)
qed

lemma diff2_loop_tokens:
  "subseq cs os \<Longrightarrow> subseq cs ms \<Longrightarrow>
   src_tokens (diff2_loop os ms cs) = os \<and> dst_tokens (diff2_loop os ms cs) = ms"
proof (induction cs arbitrary: os ms)
  case Nil
  show ?case by (simp add: diff2_loop_Nil)
next
  case (Cons c cs)
  from subseq_Cons_split [OF Cons.prems(1)] obtain p1 r1 where
    o: "os = p1 @ c # r1" "c \<notin> set p1" "subseq cs r1" by blast
  from subseq_Cons_split [OF Cons.prems(2)] obtain p2 r2 where
    m: "ms = p2 @ c # r2" "c \<notin> set p2" "subseq cs r2" by blast
  have IH: "src_tokens (diff2_loop r1 r2 cs) = r1" "dst_tokens (diff2_loop r1 r2 cs) = r2"
    using Cons.IH [OF o(3) m(3)] by simp_all
  have "src_tokens (diff2_loop (p1 @ c # r1) (p2 @ c # r2) (c # cs)) = p1 @ c # r1"
    by (simp add: diff2_loop_Cons [OF o(2) m(2)] IH)
  moreover have "dst_tokens (diff2_loop (p1 @ c # r1) (p2 @ c # r2) (c # cs)) = p2 @ c # r2"
    by (simp add: diff2_loop_Cons [OF o(2) m(2)] IH)
  ultimately show ?case unfolding o(1) m(1) by (rule conjI)
qed

lemma diff2_tokens: "src_tokens (diff2 a b) = a" "dst_tokens (diff2 a b) = b"
  using diff2_loop_tokens [of "lcs a b" a b] lcs_subseq [of a b] by (simp_all add: diff2_def)

definition slot :: "string list \<Rightarrow> changes \<Rightarrow> nat \<Rightarrow> string list" where
  "slot A chg i = (if \<not> is_deleted chg i then [A ! i] else []) @ insert_after chg i"

definition render :: "string list \<Rightarrow> changes \<Rightarrow> nat \<Rightarrow> string list" where
  "render A chg k = concat (map (slot A chg) [0..<k])"

definition del_flags :: "DiffOp list \<Rightarrow> bool list" where
  "del_flags ops =
     concat (map (\<lambda>op. case optype op of
                          Insert \<Rightarrow> []
                        | Delete \<Rightarrow> replicate (length (tokens op)) True
                        | Keep \<Rightarrow> replicate (length (tokens op)) False) ops)"

definition DEL :: ChangeInfo where
  "DEL = \<lparr>deleted = True, insertionBefore = None, insertionAfter = None\<rparr>"

lemma is_empty_iff: "Mapping.is_empty m \<longleftrightarrow> (\<forall>i. Mapping.lookup m i = None)"
  by (auto simp: Mapping.is_empty_def keys_dom_lookup)

lemma mark_deleted_fold:
  "\<exists>chg'. foldl mark_deleted (k, chg) ts = (k + length ts, chg') \<and>
     (\<forall>i. Mapping.lookup chg' i =
        (if k \<le> i \<and> i < k + length ts then Some DEL else Mapping.lookup chg i))"
proof (induction ts arbitrary: k chg)
  case Nil
  show ?case by auto
next
  case (Cons t ts)
  have step: "mark_deleted (k, chg) t = (Suc k, Mapping.update k DEL chg)"
    by (simp add: mark_deleted_def DEL_def)
  from Cons.IH [of "Suc k" "Mapping.update k DEL chg"] obtain chg' where
    c: "foldl mark_deleted (Suc k, Mapping.update k DEL chg) ts = (Suc k + length ts, chg')"
      "\<forall>i. Mapping.lookup chg' i =
        (if Suc k \<le> i \<and> i < Suc k + length ts then Some DEL
         else Mapping.lookup (Mapping.update k DEL chg) i)" by blast
  have "foldl mark_deleted (k, chg) (t # ts) = (k + length (t # ts), chg')"
    using c(1) step by simp
  moreover have "\<forall>i. Mapping.lookup chg' i =
        (if k \<le> i \<and> i < k + length (t # ts) then Some DEL else Mapping.lookup chg i)"
    using c(2) by (auto simp: Mapping.lookup_update')
  ultimately show ?case by blast
qed

lemma is_deleted_lookup:
  "Mapping.lookup chg i = None \<Longrightarrow> is_deleted chg i = False"
  "Mapping.lookup chg i = Some DEL \<Longrightarrow> is_deleted chg i = True"
  "Mapping.lookup chg i = None \<Longrightarrow> insert_after chg i = []"
  "Mapping.lookup chg i = Some DEL \<Longrightarrow> insert_after chg i = []"
  by (simp_all add: is_deleted_def insert_after_def DEL_def)

lemma views_cong:
  "Mapping.lookup chg i = Mapping.lookup chg' i \<Longrightarrow> is_deleted chg i = is_deleted chg' i"
  "Mapping.lookup chg i = Mapping.lookup chg' i \<Longrightarrow> insert_after chg i = insert_after chg' i"
  by (simp_all add: is_deleted_def insert_after_def)

text \<open>The operations of one round of the outer loop before its keep.\<close>

lemma change_step_Delete:
  "ts \<noteq> [] \<Longrightarrow>
   foldl change_step (k, chg, st) (emit Delete ts) =
     (case foldl mark_deleted (k, chg) ts of (k', chg') \<Rightarrow> (k', chg', st))"
  by (simp add: emit_def change_step_def)

lemma change_step_Insert0:
  "q \<noteq> [] \<Longrightarrow> Mapping.is_empty chg \<Longrightarrow>
   foldl change_step (0, chg, st) (emit Insert q) = (0, chg, q)"
  by (simp add: emit_def change_step_def)

lemma change_step_Insert:
  "q \<noteq> [] \<Longrightarrow> k > 0 \<Longrightarrow>
   foldl change_step (k, chg, st) (emit Insert q) =
     (k, Mapping.update (k - 1)
           ((case Mapping.lookup chg (k - 1) of
               Some ci \<Rightarrow> ci
             | None \<Rightarrow> \<lparr>deleted = False, insertionBefore = None, insertionAfter = None\<rparr>)
            \<lparr>insertionAfter := Some q\<rparr>) chg, st)"
  by (simp add: emit_def change_step_def)

lemma change_step_Keep:
  "change_step (k, chg, st) \<lparr>optype = Keep, tokens = [c]\<rparr> = (Suc k, chg, st)"
  by (simp add: change_step_def)

lemma delete_round:
  "\<exists>chg1. foldl change_step (k, chg, st) (emit Delete p) = (k + length p, chg1, st) \<and>
     (\<forall>i. Mapping.lookup chg1 i =
        (if k \<le> i \<and> i < k + length p then Some DEL else Mapping.lookup chg i))"
proof (cases "p = []")
  case True
  then show ?thesis by (auto simp: emit_def)
next
  case False
  from mark_deleted_fold [of k chg p] obtain chg' where
    c: "foldl mark_deleted (k, chg) p = (k + length p, chg')"
      "\<forall>i. Mapping.lookup chg' i =
        (if k \<le> i \<and> i < k + length p then Some DEL else Mapping.lookup chg i)" by blast
  have "foldl change_step (k, chg, st) (emit Delete p) = (k + length p, chg', st)"
    by (simp add: change_step_Delete [OF False] c(1))
  with c(2) show ?thesis by blast
qed

lemma insert_round:
  assumes I1: "\<forall>i\<ge>k1. Mapping.lookup chg i = None"
    and I2: "k1 > 0 \<Longrightarrow> Mapping.lookup chg (k1 - 1) = None \<or> Mapping.lookup chg (k1 - 1) = Some DEL"
    and I3: "k1 = 0 \<Longrightarrow> st = []"
  shows "\<exists>chg1 st1. foldl change_step (k1, chg, st) (emit Insert q) = (k1, chg1, st1) \<and>
     (\<forall>i\<ge>k1. Mapping.lookup chg1 i = None) \<and>
     (\<forall>i. Suc i \<noteq> k1 \<longrightarrow> Mapping.lookup chg1 i = Mapping.lookup chg i) \<and>
     (k1 > 0 \<longrightarrow> is_deleted chg1 (k1 - 1) = is_deleted chg (k1 - 1) \<and>
                insert_after chg1 (k1 - 1) = q) \<and>
     st1 = (if k1 = 0 then q else st)"
proof (cases "q = []")
  case True
  have "insert_after chg (k1 - 1) = []" if "k1 > 0"
    using I2 [OF that] by (auto simp: is_deleted_lookup)
  then show ?thesis using True I1 I3 by (auto simp: emit_def)
next
  case qne: False
  show ?thesis
  proof (cases "k1 = 0")
    case True
    have "Mapping.is_empty chg" using I1 True by (simp add: is_empty_iff)
    then have "foldl change_step (k1, chg, st) (emit Insert q) = (k1, chg, q)"
      using True change_step_Insert0 [OF qne] by simp
    then show ?thesis using True I1 by auto
  next
    case False
    then have pos: "k1 > 0" by simp
    then obtain j where j: "k1 = Suc j" by (cases k1) auto
    define prev where "prev = (case Mapping.lookup chg j of
               Some ci \<Rightarrow> ci
             | None \<Rightarrow> \<lparr>deleted = False, insertionBefore = None, insertionAfter = None\<rparr>)"
    define chg1 where "chg1 = Mapping.update j (prev\<lparr>insertionAfter := Some q\<rparr>) chg"
    have run: "foldl change_step (k1, chg, st) (emit Insert q) = (k1, chg1, st)"
      using change_step_Insert [OF qne pos, of chg st] by (simp add: chg1_def prev_def j)
    have a: "\<forall>i\<ge>k1. Mapping.lookup chg1 i = None"
      using I1 j by (auto simp: chg1_def Mapping.lookup_update')
    have b: "\<forall>i. Suc i \<noteq> k1 \<longrightarrow> Mapping.lookup chg1 i = Mapping.lookup chg i"
      using j by (auto simp: chg1_def Mapping.lookup_update')
    have lk: "Mapping.lookup chg1 j = Some (prev\<lparr>insertionAfter := Some q\<rparr>)"
      by (simp add: chg1_def)
    have dprev: "deleted prev = is_deleted chg j"
      by (simp add: prev_def is_deleted_def split: option.split)
    have "is_deleted chg1 j = deleted prev"
      by (simp add: is_deleted_def lk)
    with dprev have c: "is_deleted chg1 j = is_deleted chg j" by simp
    have d: "insert_after chg1 j = q"
      by (simp add: insert_after_def lk)
    show ?thesis using run a b c d j by auto
  qed
qed

lemma concat_last:
  "concat (map (\<lambda>i. f i @ (if Suc i = Suc j then q else [])) [0..<Suc j]) =
   concat (map f [0..<Suc j]) @ q"
proof -
  have "concat (map (\<lambda>i. f i @ (if Suc i = Suc j then q else [])) [0..<j]) =
        concat (map f [0..<j])"
    by (rule arg_cong [where f = concat], rule map_cong [OF refl]) simp
  then show ?thesis by simp
qed

lemma concat_upto:
  assumes "k \<le> k1"
  shows "concat (map (\<lambda>i. if i < k then f i else []) [0..<k1]) = concat (map f [0..<k])"
proof -
  obtain d where d: "k1 = k + d" using assms by (auto simp: le_iff_add)
  have 1: "concat (map (\<lambda>i. if i < k then f i else []) [0..<k]) = concat (map f [0..<k])"
    by (rule arg_cong [where f = concat], rule map_cong [OF refl]) simp
  have 2: "concat (map (\<lambda>i. if i < k then f i else []) [k..<k + d]) = []"
    by simp
  have 3: "[0..<k1] = [0..<k] @ [k..<k + d]"
    unfolding d by (rule upt_add_eq_append) simp
  show ?thesis unfolding 3 by (simp only: map_append concat_append 1 2 append_Nil2)
qed

lemma slot_None: "Mapping.lookup chg i = None \<Longrightarrow> slot A chg i = [A ! i]"
  by (simp add: slot_def is_deleted_lookup)

lemma slot_DEL: "Mapping.lookup chg i = Some DEL \<Longrightarrow> slot A chg i = []"
  by (simp add: slot_def is_deleted_lookup)

lemma slot_cong: "Mapping.lookup chg i = Mapping.lookup chg' i \<Longrightarrow> slot A chg i = slot A chg' i"
  by (simp add: slot_def is_deleted_def insert_after_def)

lemma change_round:
  assumes I1: "\<forall>i\<ge>k. Mapping.lookup chg i = None"
    and I2: "k > 0 \<Longrightarrow> Mapping.lookup chg (k - 1) = None"
    and I3: "k = 0 \<Longrightarrow> st = []"
  shows "\<exists>chg1 st1.
     foldl change_step (k, chg, st) (emit Delete p @ emit Insert q) = (k + length p, chg1, st1) \<and>
     (\<forall>i\<ge>k + length p. Mapping.lookup chg1 i = None) \<and>
     (\<forall>i<k + length p. is_deleted chg1 i = (if i < k then is_deleted chg i else True)) \<and>
     st1 @ render A chg1 (k + length p) = st @ render A chg k @ q"
proof -
  define k1 where "k1 = k + length p"
  define P where "P = (\<lambda>chgd. foldl change_step (k, chg, st) (emit Delete p) = (k + length p, chgd, st) \<and>
     (\<forall>i. Mapping.lookup chgd i =
        (if k \<le> i \<and> i < k + length p then Some DEL else Mapping.lookup chg i)))"
  have "\<exists>chgd. P chgd" unfolding P_def by (rule delete_round)
  then obtain chgd where "P chgd" ..
  then have d: "foldl change_step (k, chg, st) (emit Delete p) = (k1, chgd, st)"
      "\<And>i. Mapping.lookup chgd i =
        (if k \<le> i \<and> i < k1 then Some DEL else Mapping.lookup chg i)"
    unfolding P_def k1_def by simp_all
  have J1: "\<forall>i\<ge>k1. Mapping.lookup chgd i = None"
    using I1 by (simp add: d(2) k1_def)
  have J2: "Mapping.lookup chgd (k1 - 1) = None \<or> Mapping.lookup chgd (k1 - 1) = Some DEL"
    if "k1 > 0"
  proof (cases "p = []")
    case True
    then have "k1 = k" by (simp add: k1_def)
    with that I2 show ?thesis by (simp add: d(2))
  next
    case False
    then have "k \<le> k1 - 1 \<and> k1 - 1 < k1" by (cases p) (auto simp: k1_def)
    then show ?thesis by (simp add: d(2))
  qed
  have J3: "st = []" if "k1 = 0" using that I3 by (simp add: k1_def)
  define Q where "Q = (\<lambda>chg1 st1.
     foldl change_step (k1, chgd, st) (emit Insert q) = (k1, chg1, st1) \<and>
     (\<forall>i\<ge>k1. Mapping.lookup chg1 i = None) \<and>
     (\<forall>i. Suc i \<noteq> k1 \<longrightarrow> Mapping.lookup chg1 i = Mapping.lookup chgd i) \<and>
     (k1 > 0 \<longrightarrow> is_deleted chg1 (k1 - 1) = is_deleted chgd (k1 - 1) \<and>
                insert_after chg1 (k1 - 1) = q) \<and>
     st1 = (if k1 = 0 then q else st))"
  have "\<exists>chg1 st1. Q chg1 st1" unfolding Q_def by (rule insert_round [OF J1 J2 J3])
  then obtain chg1 st1 where "Q chg1 st1" by (elim exE)
  then have r: "foldl change_step (k1, chgd, st) (emit Insert q) = (k1, chg1, st1)"
      "\<forall>i\<ge>k1. Mapping.lookup chg1 i = None"
      "\<And>i. Suc i \<noteq> k1 \<Longrightarrow> Mapping.lookup chg1 i = Mapping.lookup chgd i"
      "k1 > 0 \<Longrightarrow> is_deleted chg1 (k1 - 1) = is_deleted chgd (k1 - 1)"
      "k1 > 0 \<Longrightarrow> insert_after chg1 (k1 - 1) = q"
      "st1 = (if k1 = 0 then q else st)"
    unfolding Q_def by simp_all
  have run: "foldl change_step (k, chg, st) (emit Delete p @ emit Insert q) = (k1, chg1, st1)"
    by (simp add: d(1) r(1))
  have dd: "is_deleted chgd i = (if i < k then is_deleted chg i else True)" if "i < k1" for i
  proof (cases "i < k")
    case True
    then have "Mapping.lookup chgd i = Mapping.lookup chg i" by (simp add: d(2))
    then have "is_deleted chgd i = is_deleted chg i" by (rule views_cong(1))
    then show ?thesis using True by simp
  next
    case False
    then have "Mapping.lookup chgd i = Some DEL" using that by (simp add: d(2))
    then show ?thesis using False by (simp add: is_deleted_lookup)
  qed
  have del: "is_deleted chg1 i = (if i < k then is_deleted chg i else True)" if "i < k1" for i
  proof (cases "Suc i = k1")
    case True
    then have "k1 - 1 = i" "k1 > 0" by auto
    with r(4) have "is_deleted chg1 i = is_deleted chgd i" by simp
    then show ?thesis using dd [OF that] by simp
  next
    case False
    from r(3) [OF False] have "is_deleted chg1 i = is_deleted chgd i" by (rule views_cong(1))
    then show ?thesis using dd [OF that] by simp
  qed
  have sl: "slot A chg1 i = (if i < k then slot A chg i else []) @ (if Suc i = k1 then q else [])"
    if "i < k1" for i
  proof (cases "Suc i = k1")
    case False
    from r(3) [OF False] have e: "slot A chg1 i = slot A chgd i" by (rule slot_cong)
    show ?thesis
    proof (cases "i < k")
      case True
      then have "Mapping.lookup chgd i = Mapping.lookup chg i" by (simp add: d(2))
      then have "slot A chgd i = slot A chg i" by (rule slot_cong)
      then show ?thesis using e True False by simp
    next
      case nk: False
      then have "Mapping.lookup chgd i = Some DEL" using that by (simp add: d(2))
      then show ?thesis using e nk False by (simp add: slot_DEL)
    qed
  next
    case True
    then have ki: "k1 - 1 = i" "k1 > 0" by auto
    have e: "slot A chg1 i = (if \<not> is_deleted chgd i then [A ! i] else []) @ q"
      using r(4) [OF ki(2)] r(5) [OF ki(2)] ki(1) by (simp add: slot_def)
    show ?thesis
    proof (cases "i < k")
      case ik: True
      then have "k > 0" "k - 1 = i" using True by (auto simp: k1_def)
      with I2 have "Mapping.lookup chg i = None" by auto
      then have "slot A chg i = [A ! i]" "is_deleted chg i = False"
        by (simp_all add: slot_None is_deleted_lookup)
      then show ?thesis using e dd [OF that] ik True by simp
    next
      case False
      then show ?thesis using e dd [OF that] True by simp
    qed
  qed
  have ren: "st1 @ render A chg1 k1 = st @ render A chg k @ q"
  proof (cases "k1 = 0")
    case True
    then have "k = 0" by (simp add: k1_def)
    then show ?thesis using True r(6) I3 by (simp add: render_def)
  next
    case False
    then obtain j where j: "k1 = Suc j" by (cases k1) auto
    have "render A chg1 k1 =
          concat (map (\<lambda>i. (if i < k then slot A chg i else []) @ (if Suc i = k1 then q else []))
            [0..<k1])"
      unfolding render_def by (rule arg_cong [where f = concat], rule map_cong [OF refl]) (simp add: sl)
    also have "\<dots> = concat (map (\<lambda>i. if i < k then slot A chg i else []) [0..<k1]) @ q"
      unfolding j by (rule concat_last)
    also have "\<dots> = render A chg k @ q"
      unfolding render_def by (simp add: concat_upto k1_def)
    finally show ?thesis using False r(6) by simp
  qed
  have "foldl change_step (k, chg, st) (emit Delete p @ emit Insert q) = (k + length p, chg1, st1) \<and>
     (\<forall>i\<ge>k + length p. Mapping.lookup chg1 i = None) \<and>
     (\<forall>i<k + length p. is_deleted chg1 i = (if i < k then is_deleted chg i else True)) \<and>
     st1 @ render A chg1 (k + length p) = st @ render A chg k @ q"
    using run r(2) del ren unfolding k1_def by simp
  then show ?thesis by (intro exI)
qed

definition kept_at :: "changes \<Rightarrow> changes \<Rightarrow> nat \<Rightarrow> bool" where
  "kept_at bC cC i = (\<not> is_deleted bC i \<and> \<not> is_deleted cC i)"

definition conflict_at :: "changes \<Rightarrow> changes \<Rightarrow> nat \<Rightarrow> bool" where
  "conflict_at bC cC i =
     (insert_after bC i \<noteq> [] \<and> insert_after cC i \<noteq> [] \<and>
      join (insert_after bC i) \<noteq> join (insert_after cC i))"

definition inserted_at :: "changes \<Rightarrow> changes \<Rightarrow> nat \<Rightarrow> string list" where
  "inserted_at bC cC i =
     (if conflict_at bC cC i
      then [inline_marker (join (insert_after bC i)) (join (insert_after cC i))]
      else insert_after bC i @ insert_after cC i)"

definition out_at :: "string list \<Rightarrow> changes \<Rightarrow> changes \<Rightarrow> nat \<Rightarrow> string list" where
  "out_at A bC cC i = (if kept_at bC cC i then [A ! i] else []) @ inserted_at bC cC i"

definition out_upto :: "string list \<Rightarrow> changes \<Rightarrow> changes \<Rightarrow> nat \<Rightarrow> string list" where
  "out_upto A bC cC n = concat (map (out_at A bC cC) [0..<n])"

definition range_at :: "changes \<Rightarrow> changes \<Rightarrow> nat \<Rightarrow> nat \<Rightarrow> ConflictRange" where
  "range_at bC cC s i =
     \<lparr>range_start = s, range_end = s + 1,
      range_b = join (insert_after bC i), range_c = join (insert_after cC i)\<rparr>"

lemma token_step_eq:
  "token_step A bC cC (m, r, h) i =
     (m @ out_at A bC cC i,
      r @ (if conflict_at bC cC i
           then [range_at bC cC (length m + (if kept_at bC cC i then 1 else 0)) i] else []),
      h \<or> conflict_at bC cC i)"
  by (simp add: token_step_def Let_def out_at_def inserted_at_def conflict_at_def kept_at_def range_at_def)

lemma token_loop:
  "foldl (token_step A bC cC) (m, r, h) [0..<n] =
    (m @ out_upto A bC cC n,
     r @ map (\<lambda>i. range_at bC cC
                 (length (m @ out_upto A bC cC i) + (if kept_at bC cC i then 1 else 0)) i)
           (filter (conflict_at bC cC) [0..<n]),
     h \<or> (\<exists>i<n. conflict_at bC cC i))"
proof (induction n)
  case 0
  show ?case by (simp add: out_upto_def)
next
  case (Suc n)
  have ex: "(\<exists>i<Suc n. conflict_at bC cC i) = ((\<exists>i<n. conflict_at bC cC i) \<or> conflict_at bC cC n)"
    by (auto simp: less_Suc_eq)
  have up: "out_upto A bC cC (Suc n) = out_upto A bC cC n @ out_at A bC cC n"
    by (simp add: out_upto_def)
  have "foldl (token_step A bC cC) (m, r, h) [0..<Suc n] =
        token_step A bC cC (foldl (token_step A bC cC) (m, r, h) [0..<n]) n"
    by simp
  also have "\<dots> = token_step A bC cC (m @ out_upto A bC cC n,
     r @ map (\<lambda>i. range_at bC cC
                 (length (m @ out_upto A bC cC i) + (if kept_at bC cC i then 1 else 0)) i)
           (filter (conflict_at bC cC) [0..<n]),
     h \<or> (\<exists>i<n. conflict_at bC cC i)) n"
    by (simp only: Suc.IH)
  finally show ?case
    by (simp add: token_step_eq up ex)
qed

lemma lcs_backtrack_same:
  "i \<le> length a \<Longrightarrow> lcs_backtrack a a dp i i res = take i a @ res"
proof (induction i arbitrary: res)
  case 0
  show ?case by (subst lcs_backtrack.simps) simp
next
  case (Suc i)
  have "lcs_backtrack a a dp (Suc i) (Suc i) res = lcs_backtrack a a dp i i (a ! i # res)"
    by (subst lcs_backtrack.simps) simp
  also have "\<dots> = take i a @ a ! i # res"
    using Suc by simp
  also have "\<dots> = take (Suc i) a @ res"
    using Suc.prems by (simp add: take_Suc_conv_app_nth)
  finally show ?case .
qed

lemma lcs_same: "lcs a a = a"
  by (simp add: lcs_def lcs_backtrack_same)

definition keep_op :: "string \<Rightarrow> DiffOp" where
  "keep_op c = \<lparr>optype = Keep, tokens = [c]\<rparr>"

lemma diff2_loop_same: "diff2_loop a a a = map keep_op a"
proof (induction a)
  case Nil
  show ?case by (simp add: diff2_loop_empty)
next
  case (Cons c a)
  have "diff2_loop ([] @ c # a) ([] @ c # a) (c # a) =
        emit Delete [] @ emit Insert [] @ \<lparr>optype = Keep, tokens = [c]\<rparr> # diff2_loop a a a"
    by (rule diff2_loop_Cons) simp_all
  then show ?case using Cons by (simp add: emit_def keep_op_def)
qed

lemma diff2_same: "diff2 a a = map keep_op a"
  by (simp add: diff2_def lcs_same diff2_loop_same)

lemma collect_keeps: "foldl change_step (k, chg, st) (map keep_op a) = (k + length a, chg, st)"
  by (induction a arbitrary: k) (simp_all add: keep_op_def change_step_Keep)

lemma collect_changes_same: "collect_changes (diff2 a a) = (length a, Mapping.empty, [])"
  by (simp add: collect_changes_def diff2_same collect_keeps)

lemma del_flags_simps:
  "del_flags (emit Delete p @ emit Insert q) = replicate (length p) True"
  "del_flags (emit Delete p @ emit Insert q @ \<lparr>optype = Keep, tokens = [c]\<rparr> # ops) =
     replicate (length p) True @ False # del_flags ops"
  by (simp_all add: del_flags_def emit_def)

lemma render_Suc: "render A chg (Suc k) = render A chg k @ slot A chg k"
  by (simp add: render_def)

lemma collect_loop:
  assumes "subseq cs os" "subseq cs ms"
    and "A = pre @ os" "k = length pre"
    and "\<forall>i\<ge>k. Mapping.lookup chg i = None"
    and "k > 0 \<Longrightarrow> Mapping.lookup chg (k - 1) = None"
    and "k = 0 \<Longrightarrow> st = []"
  shows "\<exists>chg' st'.
       foldl change_step (k, chg, st) (diff2_loop os ms cs) = (length A, chg', st') \<and>
       st' @ render A chg' (length A) = st @ render A chg k @ ms \<and>
       (\<forall>i<length A. is_deleted chg' i =
          (if i < k then is_deleted chg i else del_flags (diff2_loop os ms cs) ! (i - k)))"
  using assms
proof (induction cs arbitrary: os ms pre k chg st)
  case Nil
  have ops: "diff2_loop os ms [] = emit Delete os @ emit Insert ms" by (rule diff2_loop_Nil)
  have len: "k + length os = length A" using Nil.prems(3,4) by simp
  define R where "R = (\<lambda>chg1 st1.
     foldl change_step (k, chg, st) (emit Delete os @ emit Insert ms) = (k + length os, chg1, st1) \<and>
     (\<forall>i\<ge>k + length os. Mapping.lookup chg1 i = None) \<and>
     (\<forall>i<k + length os. is_deleted chg1 i = (if i < k then is_deleted chg i else True)) \<and>
     st1 @ render A chg1 (k + length os) = st @ render A chg k @ ms)"
  have "\<exists>chg1 st1. R chg1 st1"
    unfolding R_def by (rule change_round [OF Nil.prems(5) Nil.prems(6) Nil.prems(7)])
  then obtain chg1 st1 where "R chg1 st1" by (elim exE)
  then have r: "foldl change_step (k, chg, st) (diff2_loop os ms []) = (length A, chg1, st1)"
    "\<And>i. i < length A \<Longrightarrow> is_deleted chg1 i = (if i < k then is_deleted chg i else True)"
    "st1 @ render A chg1 (length A) = st @ render A chg k @ ms"
    unfolding R_def ops len by simp_all
  have fl: "is_deleted chg1 i =
      (if i < k then is_deleted chg i else del_flags (diff2_loop os ms []) ! (i - k))"
    if "i < length A" for i
  proof (cases "i < k")
    case True
    then show ?thesis using r(2) [OF that] by simp
  next
    case False
    then have "i - k < length os" using that len by simp
    then show ?thesis using r(2) [OF that] False by (simp add: ops del_flags_simps)
  qed
  have "foldl change_step (k, chg, st) (diff2_loop os ms []) = (length A, chg1, st1) \<and>
       st1 @ render A chg1 (length A) = st @ render A chg k @ ms \<and>
       (\<forall>i<length A. is_deleted chg1 i =
          (if i < k then is_deleted chg i else del_flags (diff2_loop os ms []) ! (i - k)))"
    using r(1) r(3) fl by simp
  then show ?case by (intro exI)
next
  case (Cons c cs)
  from subseq_Cons_split [OF Cons.prems(1)] obtain p1 r1 where
    o: "os = p1 @ c # r1" "c \<notin> set p1" "subseq cs r1" by blast
  from subseq_Cons_split [OF Cons.prems(2)] obtain p2 r2 where
    m: "ms = p2 @ c # r2" "c \<notin> set p2" "subseq cs r2" by blast
  define rest where "rest = diff2_loop r1 r2 cs"
  define k1 where "k1 = k + length p1"
  have ops: "diff2_loop os ms (c # cs) =
      (emit Delete p1 @ emit Insert p2) @ \<lparr>optype = Keep, tokens = [c]\<rparr> # rest"
    unfolding o(1) m(1) rest_def using diff2_loop_Cons [OF o(2) m(2)] by simp
  have flags: "del_flags (diff2_loop os ms (c # cs)) = replicate (length p1) True @ False # del_flags rest"
    unfolding ops using del_flags_simps(2) [of p1 p2 c rest] by simp
  define R where "R = (\<lambda>chg1 st1.
     foldl change_step (k, chg, st) (emit Delete p1 @ emit Insert p2) = (k + length p1, chg1, st1) \<and>
     (\<forall>i\<ge>k + length p1. Mapping.lookup chg1 i = None) \<and>
     (\<forall>i<k + length p1. is_deleted chg1 i = (if i < k then is_deleted chg i else True)) \<and>
     st1 @ render A chg1 (k + length p1) = st @ render A chg k @ p2)"
  have "\<exists>chg1 st1. R chg1 st1"
    unfolding R_def by (rule change_round [OF Cons.prems(5) Cons.prems(6) Cons.prems(7)])
  then obtain chg1 st1 where "R chg1 st1" by (elim exE)
  then have r: "foldl change_step (k, chg, st) (emit Delete p1 @ emit Insert p2) = (k1, chg1, st1)"
    "\<And>i. i \<ge> k1 \<Longrightarrow> Mapping.lookup chg1 i = None"
    "\<And>i. i < k1 \<Longrightarrow> is_deleted chg1 i = (if i < k then is_deleted chg i else True)"
    "st1 @ render A chg1 k1 = st @ render A chg k @ p2"
    unfolding R_def k1_def by simp_all
  have run1: "foldl change_step (k, chg, st) (diff2_loop os ms (c # cs)) =
      foldl change_step (Suc k1, chg1, st1) rest"
  proof -
    have "foldl change_step (k, chg, st)
            ((emit Delete p1 @ emit Insert p2) @ \<lparr>optype = Keep, tokens = [c]\<rparr> # rest) =
          foldl change_step (foldl change_step (k, chg, st) (emit Delete p1 @ emit Insert p2))
            (\<lparr>optype = Keep, tokens = [c]\<rparr> # rest)"
      by (rule foldl_append)
    also have "\<dots> = foldl change_step (k1, chg1, st1) (\<lparr>optype = Keep, tokens = [c]\<rparr> # rest)"
      by (simp only: r(1))
    also have "\<dots> = foldl change_step (Suc k1, chg1, st1) rest"
      by (simp add: change_step_Keep)
    finally show ?thesis unfolding ops .
  qed
  have A': "A = (pre @ p1 @ [c]) @ r1" using Cons.prems(3) o(1) by simp
  have k': "Suc k1 = length (pre @ p1 @ [c])" using Cons.prems(4) by (simp add: k1_def)
  have J1: "\<forall>i\<ge>Suc k1. Mapping.lookup chg1 i = None" using r(2) by simp
  have J2: "Mapping.lookup chg1 (Suc k1 - 1) = None" if "Suc k1 > 0" using r(2) by simp
  have J3: "st1 = []" if "Suc k1 = 0" using that by simp
  define S where "S = (\<lambda>chg' st'.
       foldl change_step (Suc k1, chg1, st1) (diff2_loop r1 r2 cs) = (length A, chg', st') \<and>
       st' @ render A chg' (length A) = st1 @ render A chg1 (Suc k1) @ r2 \<and>
       (\<forall>i<length A. is_deleted chg' i =
          (if i < Suc k1 then is_deleted chg1 i else del_flags (diff2_loop r1 r2 cs) ! (i - Suc k1))))"
  have "\<exists>chg' st'. S chg' st'"
    unfolding S_def by (rule Cons.IH [OF o(3) m(3) A' k' J1 J2 J3])
  then obtain chg' st' where "S chg' st'" by (elim exE)
  then have s: "foldl change_step (Suc k1, chg1, st1) rest = (length A, chg', st')"
    "st' @ render A chg' (length A) = st1 @ render A chg1 (Suc k1) @ r2"
    "\<And>i. i < length A \<Longrightarrow> is_deleted chg' i =
          (if i < Suc k1 then is_deleted chg1 i else del_flags rest ! (i - Suc k1))"
    unfolding S_def rest_def by simp_all
  have Ak1: "A ! k1 = c"
    using Cons.prems(3) Cons.prems(4) o(1) by (simp add: k1_def nth_append)
  have "slot A chg1 k1 = [c]"
    using slot_None [of chg1 k1 A] r(2) [of k1] Ak1 by simp
  then have ren1: "render A chg1 (Suc k1) = render A chg1 k1 @ [c]"
    by (simp add: render_Suc)
  have ren: "st' @ render A chg' (length A) = st @ render A chg k @ ms"
  proof -
    have "st' @ render A chg' (length A) = (st1 @ render A chg1 k1) @ c # r2"
      using s(2) ren1 by simp
    also have "\<dots> = (st @ render A chg k @ p2) @ c # r2" by (simp only: r(4))
    finally show ?thesis by (simp add: m(1))
  qed
  have dk1: "is_deleted chg1 k1 = False"
    using r(2) [of k1] by (simp add: is_deleted_lookup)
  have fl: "is_deleted chg' i =
      (if i < k then is_deleted chg i else del_flags (diff2_loop os ms (c # cs)) ! (i - k))"
    if "i < length A" for i
  proof -
    consider "i < k" | "k \<le> i" "i < k1" | "i = k1" | "i > k1" by linarith
    then show ?thesis
    proof cases
      case 1
      then have "i < k1" "i < Suc k1" by (simp_all add: k1_def)
      then show ?thesis using s(3) [OF that] r(3) [of i] 1 by simp
    next
      case 2
      then have "i - k < length p1" by (simp add: k1_def)
      then have "del_flags (diff2_loop os ms (c # cs)) ! (i - k) = True"
        by (simp add: flags nth_append)
      then show ?thesis using s(3) [OF that] r(3) [of i] 2 by simp
    next
      case 3
      then have "i - k = length p1" by (simp add: k1_def)
      then have "del_flags (diff2_loop os ms (c # cs)) ! (i - k) = False"
        by (simp add: flags nth_append)
      moreover have "\<not> i < k" using 3 by (simp add: k1_def)
      ultimately show ?thesis using s(3) [OF that] dk1 3 by simp
    next
      case 4
      then obtain e where e: "i = Suc k1 + e" by (metis less_iff_Suc_add add_Suc)
      then have "i - k = length p1 + Suc e" by (simp add: k1_def)
      then have "del_flags (diff2_loop os ms (c # cs)) ! (i - k) = del_flags rest ! e"
        by (simp add: flags nth_append)
      moreover have "\<not> i < k" "\<not> i < Suc k1" "i - Suc k1 = e" using e by (simp_all add: k1_def)
      ultimately show ?thesis using s(3) [OF that] by simp
    qed
  qed
  have "foldl change_step (k, chg, st) (diff2_loop os ms (c # cs)) = (length A, chg', st') \<and>
       st' @ render A chg' (length A) = st @ render A chg k @ ms \<and>
       (\<forall>i<length A. is_deleted chg' i =
          (if i < k then is_deleted chg i else del_flags (diff2_loop os ms (c # cs)) ! (i - k)))"
    using run1 s(1) ren fl by simp
  then show ?case by (intro exI)
qed

lemma collect_changes_diff2:
  "\<exists>chg st. collect_changes (diff2 A B) = (length A, chg, st) \<and>
     st @ render A chg (length A) = B \<and>
     (\<forall>i<length A. is_deleted chg i = del_flags (diff2 A B) ! i)"
proof -
  have 1: "subseq (lcs A B) A" "subseq (lcs A B) B" using lcs_subseq [of A B] by simp_all
  have 2: "A = [] @ A" "(0::nat) = length ([]::string list)" by simp_all
  have 3: "\<forall>i\<ge>0. Mapping.lookup (Mapping.empty :: changes) i = None" by simp
  have 4: "Mapping.lookup (Mapping.empty :: changes) (0 - 1) = None" if "(0::nat) > 0" by simp
  have 5: "([]::string list) = []" if "(0::nat) = 0" by simp
  from collect_loop [OF 1 2 3 4 5]
  show ?thesis by (simp add: collect_changes_def diff2_def render_def)
qed

lemma out_at_empty: "out_at A bC Mapping.empty i = slot A bC i"
  by (simp add: out_at_def inserted_at_def slot_def kept_at_def conflict_at_def is_deleted_def insert_after_def)

lemma conflict_at_empty: "conflict_at bC Mapping.empty i = False"
  by (simp add: conflict_at_def insert_after_def)

text \<open>
  Claim C10. When C is the same string as A, the word-level merge returns B itself: for
  all strings \<open>a\<close> and \<open>b\<close>, \<open>wordMerge3Way a b a\<close> has \<open>merged = b\<close>, no conflict and
  no conflict range. The proof rests on the tokens of a string concatenating back to it,
  on the diff of A against itself keeping every token, and on the operations of a diff
  spelling out its second argument.
\<close>

theorem wordMerge3Way_unchanged_c:
  "wordMerge3Way a b a = \<lparr>wm_merged = b, hasConflict = False, conflictRanges = []\<rparr>"
proof -
  define A where "A = tokenize a"
  define P where "P = (\<lambda>chg st. collect_changes (diff2 A (tokenize b)) = (length A, chg, st) \<and>
     st @ render A chg (length A) = tokenize b \<and>
     (\<forall>i<length A. is_deleted chg i = del_flags (diff2 A (tokenize b)) ! i))"
  have "\<exists>chg st. P chg st" unfolding P_def by (rule collect_changes_diff2)
  then obtain chg st where "P chg st" by (elim exE)
  then have p: "collect_changes (diff2 A (tokenize b)) = (length A, chg, st)"
    "st @ render A chg (length A) = tokenize b"
    unfolding P_def by simp_all
  have "out_at A chg Mapping.empty = slot A chg"
    by (rule ext) (rule out_at_empty)
  then have up: "out_upto A chg Mapping.empty n = render A chg n" for n
    by (simp add: out_upto_def render_def)
  have loop: "foldl (token_step A chg Mapping.empty) (st, [], False) [0..<length A] =
      (tokenize b, [], False)"
    by (simp add: token_loop conflict_at_empty up p(2))
  show ?thesis
    unfolding wordMerge3Way_def Let_def A_def [symmetric]
    by (simp add: collect_changes_same p(1) loop join_def tokenize_concat)
qed

theorem wordMerge3Way_unchanged_c_witness:
  "wordMerge3Way ''quick fox'' ''quick brown fox'' ''quick fox'' =
     \<lparr>wm_merged = ''quick brown fox'', hasConflict = False, conflictRanges = []\<rparr>"
  by (rule wordMerge3Way_unchanged_c)

















definition changes_of :: "string \<Rightarrow> string \<Rightarrow> changes" where
  "changes_of a b = fst (snd (collect_changes (diff2 (tokenize a) (tokenize b))))"

definition start_of :: "string \<Rightarrow> string \<Rightarrow> string list" where
  "start_of a b = snd (snd (collect_changes (diff2 (tokenize a) (tokenize b))))"













lemma collect_changes_of:
  "collect_changes (diff2 (tokenize a) (tokenize b)) = (length (tokenize a), changes_of a b, start_of a b)"
proof -
  define P where "P = (\<lambda>chg st.
     collect_changes (diff2 (tokenize a) (tokenize b)) = (length (tokenize a), chg, st) \<and>
     st @ render (tokenize a) chg (length (tokenize a)) = tokenize b \<and>
     (\<forall>i<length (tokenize a). is_deleted chg i = del_flags (diff2 (tokenize a) (tokenize b)) ! i))"
  have "\<exists>chg st. P chg st" unfolding P_def by (rule collect_changes_diff2)
  then obtain chg st where "P chg st" by (elim exE)
  then have "collect_changes (diff2 (tokenize a) (tokenize b)) = (length (tokenize a), chg, st)"
    unfolding P_def by simp
  then show ?thesis by (simp add: changes_of_def start_of_def)
qed

lemma deleted_changes_of:
  "i < length (tokenize a) \<Longrightarrow>
   is_deleted (changes_of a b) i = del_flags (diff2 (tokenize a) (tokenize b)) ! i"
  using collect_changes_diff2 [of "tokenize a" "tokenize b"]
  by (auto simp: collect_changes_of)

lemma wordMerge3Way_loop:
  "wordMerge3Way a b c =
     \<lparr>wm_merged = join (start_of a b @ start_of a c @
          out_upto (tokenize a) (changes_of a b) (changes_of a c) (length (tokenize a))),
      hasConflict = (\<exists>i<length (tokenize a). conflict_at (changes_of a b) (changes_of a c) i),
      conflictRanges =
        map (\<lambda>i. range_at (changes_of a b) (changes_of a c)
               (length (start_of a b @ start_of a c @
                  out_upto (tokenize a) (changes_of a b) (changes_of a c) i) +
                (if kept_at (changes_of a b) (changes_of a c) i then 1 else 0)) i)
          (filter (conflict_at (changes_of a b) (changes_of a c)) [0..<length (tokenize a)])\<rparr>"
  unfolding wordMerge3Way_def Let_def
  by (simp add: collect_changes_of token_loop)













lemma del_flags_length: "length (del_flags ops) = length (src_tokens ops)"
proof (induction ops)
  case Nil
  show ?case by (simp add: del_flags_def src_tokens_def)
next
  case (Cons op ops)
  then show ?case by (cases "optype op") (simp_all add: del_flags_def src_tokens_def)
qed

text \<open>
  Claim C4. \<open>del_flags\<close> marks the positions of A that a diff covers with a delete
  operation. The merged text is the start insertions followed, for each position of A,
  by the token exactly when neither diff deleted it and then by what was inserted there;
  and \<open>hasConflict\<close> holds only when both sides inserted different text at one position, so
  a deletion, by one side or by both, never makes a conflict.
\<close>

theorem wordMerge3Way_deletions:
  "length (del_flags (diff2 (tokenize a) (tokenize b))) = length (tokenize a) \<and>
   length (del_flags (diff2 (tokenize a) (tokenize c))) = length (tokenize a) \<and>
   wm_merged (wordMerge3Way a b c) =
     join (start_of a b @ start_of a c @
       concat (map (\<lambda>i.
           (if del_flags (diff2 (tokenize a) (tokenize b)) ! i \<or>
               del_flags (diff2 (tokenize a) (tokenize c)) ! i
            then [] else [tokenize a ! i]) @
           inserted_at (changes_of a b) (changes_of a c) i) [0..<length (tokenize a)])) \<and>
   (hasConflict (wordMerge3Way a b c) \<longrightarrow>
      (\<exists>i<length (tokenize a).
          insert_after (changes_of a b) i \<noteq> [] \<and> insert_after (changes_of a c) i \<noteq> [] \<and>
          join (insert_after (changes_of a b) i) \<noteq> join (insert_after (changes_of a c) i)))"
proof -
  have l1: "length (del_flags (diff2 (tokenize a) (tokenize b))) = length (tokenize a)"
    by (simp add: del_flags_length diff2_tokens)
  have l2: "length (del_flags (diff2 (tokenize a) (tokenize c))) = length (tokenize a)"
    by (simp add: del_flags_length diff2_tokens)
  have "concat (map (out_at (tokenize a) (changes_of a b) (changes_of a c))
          [0..<length (tokenize a)]) =
        concat (map (\<lambda>i.
           (if del_flags (diff2 (tokenize a) (tokenize b)) ! i \<or>
               del_flags (diff2 (tokenize a) (tokenize c)) ! i
            then [] else [tokenize a ! i]) @
           inserted_at (changes_of a b) (changes_of a c) i) [0..<length (tokenize a)])"
    by (rule arg_cong [where f = concat], rule map_cong [OF refl])
      (simp add: out_at_def kept_at_def deleted_changes_of)
  then have m: "wm_merged (wordMerge3Way a b c) =
     join (start_of a b @ start_of a c @
       concat (map (\<lambda>i.
           (if del_flags (diff2 (tokenize a) (tokenize b)) ! i \<or>
               del_flags (diff2 (tokenize a) (tokenize c)) ! i
            then [] else [tokenize a ! i]) @
           inserted_at (changes_of a b) (changes_of a c) i) [0..<length (tokenize a)]))"
    by (simp add: wordMerge3Way_loop out_upto_def)
  have h: "hasConflict (wordMerge3Way a b c) \<longrightarrow>
      (\<exists>i<length (tokenize a).
          insert_after (changes_of a b) i \<noteq> [] \<and> insert_after (changes_of a c) i \<noteq> [] \<and>
          join (insert_after (changes_of a b) i) \<noteq> join (insert_after (changes_of a c) i))"
    by (simp add: wordMerge3Way_loop conflict_at_def)
  show ?thesis using l1 l2 m h by (intro conjI)
qed

theorem wordMerge3Way_deletions_witness:
  "del_flags (diff2 (tokenize ''a b'') (tokenize ''b'')) = [True, True, False] \<and>
   del_flags (diff2 (tokenize ''a b'') (tokenize ''a b'')) = [False, False, False] \<and>
   wm_merged (wordMerge3Way ''a b'' ''b'' ''a b'') = ''b''"
proof -
  have f: "del_flags (diff2 (tokenize ''a b'') (tokenize ''b'')) = [True, True, False]"
    by code_simp
  have g: "del_flags (diff2 (tokenize ''a b'') (tokenize ''a b'')) = [False, False, False]"
    by code_simp
  have t: "tokenize ''a b'' = [''a'', '' '', ''b'']"
    by code_simp
  have s: "start_of ''a b'' ''b'' = []" "start_of ''a b'' ''a b'' = []"
    by code_simp+
  have i: "inserted_at (changes_of ''a b'' ''b'') (changes_of ''a b'' ''a b'') 0 = []"
    "inserted_at (changes_of ''a b'' ''b'') (changes_of ''a b'' ''a b'') (Suc 0) = []"
    "inserted_at (changes_of ''a b'' ''b'') (changes_of ''a b'' ''a b'') (Suc (Suc 0)) = []"
    by code_simp+
  have f': "del_flags (diff2 [''a'', '' '', ''b''] (tokenize ''b'')) = [True, True, False]"
    by code_simp
  have g': "del_flags (diff2 [''a'', '' '', ''b''] [''a'', '' '', ''b'']) = [False, False, False]"
    by code_simp
  have "wm_merged (wordMerge3Way ''a b'' ''b'' ''a b'') = ''b''"
    using wordMerge3Way_deletions [of "''a b''" "''b''" "''a b''"]
    by (simp add: f' g' t s i join_def)
  then show ?thesis using f g by simp
qed

section \<open>Properties of the similarity\<close>







section \<open>Properties of resolveConflict\<close>

lemma substitution_plain: "CHR ''$'' \<notin> set r \<Longrightarrow> substitution m s pos r = r"
  by (induction m s pos r rule: substitution.induct) auto

lemma startsWith_take: "startsWith s p \<longleftrightarrow> take (length p) s = p"
  by (induction s p rule: startsWith.induct) auto

lemma find_from_Some:
  "find_from p s k = Some i \<Longrightarrow> k \<le> i \<and> take (length p) (drop (i - k) s) = p"
proof (induction s arbitrary: k)
  case Nil
  then show ?case by (simp split: if_splits)
next
  case (Cons x xs)
  show ?case
  proof (cases "startsWith (x # xs) p")
    case True
    then show ?thesis using Cons.prems by (simp add: startsWith_take)
  next
    case False
    then have "find_from p xs (Suc k) = Some i" using Cons.prems by simp
    from Cons.IH [OF this] have le: "Suc k \<le> i" and tk: "take (length p) (drop (i - Suc k) xs) = p"
      by simp_all
    from le have "i - k = Suc (i - Suc k)" by simp
    then show ?thesis using le tk by simp
  qed
qed

lemma indexOf_Some:
  assumes "indexOf s p 0 = Some i"
  shows "s = take i s @ p @ drop (i + length p) s"
proof -
  from assms have "find_from p s 0 = Some i" by (simp add: indexOf_def)
  from find_from_Some [OF this] have tk: "take (length p) (drop i s) = p" by simp
  have "drop i s = take (length p) (drop i s) @ drop (length p) (drop i s)"
    by (rule append_take_drop_id [symmetric])
  also have "\<dots> = p @ drop (i + length p) s" by (simp add: tk add.commute)
  finally have "take i s @ drop i s = take i s @ p @ drop (i + length p) s" by simp
  then show ?thesis by simp
qed

text \<open>
  C8. For a replacement text without a dollar sign: when no conflict has the id,
  \<open>resolveConflict\<close> fails; when one has, the first occurrence of its marker block in
  \<open>merged\<close> is replaced by the text (a \<open>merged\<close> without the marker stays as it is), the
  conflicts with that id are removed and a resolution with source \<open>External\<close> and
  confidence 1 is appended.
\<close>

theorem resolveConflict_plain_text:
  assumes "CHR ''$'' \<notin> set text"
  shows "((\<forall>c\<in>set (conflicts result). conflict_id c \<noteq> cid) \<longrightarrow>
            resolveConflict result cid text = Inl (ConflictNotFound cid)) \<and>
         (find (\<lambda>c. conflict_id c = cid) (conflicts result) = Some conflict \<longrightarrow>
            (\<exists>newMerged.
               resolveConflict result cid text =
                 Inr (result\<lparr>merged := newMerged,
                             conflicts := filter (\<lambda>c. conflict_id c \<noteq> cid) (conflicts result),
                             resolutions := resolutions result @
                               [\<lparr>conflictId = cid, resolved = text, resolution_source = External,
                                 confidence = 1\<rparr>]\<rparr>) \<and>
               (case indexOf (merged result) (formatConflictMarker conflict) 0 of
                  None \<Rightarrow> newMerged = merged result
                | Some i \<Rightarrow>
                    merged result =
                      take i (merged result) @ formatConflictMarker conflict @
                      drop (i + length (formatConflictMarker conflict)) (merged result) \<and>
                    newMerged =
                      take i (merged result) @ text @
                      drop (i + length (formatConflictMarker conflict)) (merged result))))"
proof (intro conjI impI)
  assume "\<forall>c\<in>set (conflicts result). conflict_id c \<noteq> cid"
  then have "find (\<lambda>c. conflict_id c = cid) (conflicts result) = None"
    by (simp add: find_None_iff)
  then show "resolveConflict result cid text = Inl (ConflictNotFound cid)"
    by (simp add: resolveConflict_def)
next
  assume f: "find (\<lambda>c. conflict_id c = cid) (conflicts result) = Some conflict"
  define marker where "marker = formatConflictMarker conflict"
  define newMerged where "newMerged = replaceFirst (merged result) marker text"
  have r: "resolveConflict result cid text =
      Inr (result\<lparr>merged := newMerged,
                  conflicts := filter (\<lambda>c. conflict_id c \<noteq> cid) (conflicts result),
                  resolutions := resolutions result @
                    [\<lparr>conflictId = cid, resolved = text, resolution_source = External,
                      confidence = 1\<rparr>]\<rparr>)"
    by (simp add: resolveConflict_def f newMerged_def marker_def)
  have m: "case indexOf (merged result) marker 0 of
             None \<Rightarrow> newMerged = merged result
           | Some i \<Rightarrow>
               merged result = take i (merged result) @ marker @ drop (i + length marker) (merged result) \<and>
               newMerged = take i (merged result) @ text @ drop (i + length marker) (merged result)"
  proof (cases "indexOf (merged result) marker 0")
    case None
    then show ?thesis by (simp add: newMerged_def replaceFirst_def)
  next
    case (Some i)
    have "merged result = take i (merged result) @ marker @ drop (i + length marker) (merged result)"
      by (rule indexOf_Some [OF Some])
    then show ?thesis
      using Some by (simp add: newMerged_def replaceFirst_def substitution_plain [OF assms])
  qed
  show "\<exists>newMerged.
      resolveConflict result cid text =
        Inr (result\<lparr>merged := newMerged,
                    conflicts := filter (\<lambda>c. conflict_id c \<noteq> cid) (conflicts result),
                    resolutions := resolutions result @
                      [\<lparr>conflictId = cid, resolved = text, resolution_source = External,
                        confidence = 1\<rparr>]\<rparr>) \<and>
      (case indexOf (merged result) (formatConflictMarker conflict) 0 of
         None \<Rightarrow> newMerged = merged result
       | Some i \<Rightarrow>
           merged result =
             take i (merged result) @ formatConflictMarker conflict @
             drop (i + length (formatConflictMarker conflict)) (merged result) \<and>
           newMerged =
             take i (merged result) @ text @
             drop (i + length (formatConflictMarker conflict)) (merged result))"
    using r m unfolding marker_def by blast
qed

definition example_conflict :: Conflict where
  "example_conflict =
     \<lparr>conflict_id = ''c1'', conflict_a = ''Hello.'', conflict_b = ''Hi.'', conflict_c = ''Hey.'',
      context_before = [], context_after = [], sim_aToB = 0, sim_aToC = 0, sim_bToC = 0\<rparr>"

definition example_result :: MergeResult where
  "example_result =
     \<lparr>merged = formatConflictMarker example_conflict, conflicts = [example_conflict],
      resolutions = [],
      stats = \<lparr>unchanged = 0, upgraded = 0, preserved = 0, removed = 0, conflicts_seen = 1,
                autoResolved = 0\<rparr>\<rparr>"

lemma example_marker_found:
  "indexOf (merged example_result) (formatConflictMarker example_conflict) 0 = Some 0"
  by code_simp

theorem resolveConflict_plain_text_witness:
  "resolveConflict example_result ''c1'' ''Greetings.'' =
     Inr (example_result\<lparr>merged := ''Greetings.'', conflicts := [],
            resolutions := [\<lparr>conflictId = ''c1'', resolved = ''Greetings.'',
                             resolution_source = External, confidence = 1\<rparr>]\<rparr>) \<and>
   resolveConflict example_result ''c2'' ''Greetings.'' = Inl (ConflictNotFound ''c2'')"
proof -
  have d: "CHR ''$'' \<notin> set ''Greetings.''" by simp
  have f: "find (\<lambda>c. conflict_id c = ''c1'') (conflicts example_result) = Some example_conflict"
    by (simp add: example_result_def example_conflict_def)
  have n: "\<forall>c\<in>set (conflicts example_result). conflict_id c \<noteq> ''c2''"
    by (simp add: example_result_def example_conflict_def)
  have c: "filter (\<lambda>c. conflict_id c \<noteq> ''c1'') (conflicts example_result) = []"
    by (simp add: example_result_def example_conflict_def)
  have l: "drop (length (formatConflictMarker example_conflict)) (merged example_result) = []"
    by (simp add: example_result_def)
  have e: "resolutions example_result = []" by (simp add: example_result_def)
  from resolveConflict_plain_text [OF d, of example_result "''c1''" example_conflict] f
    example_marker_found c l e
  have 1: "resolveConflict example_result ''c1'' ''Greetings.'' =
     Inr (example_result\<lparr>merged := ''Greetings.'', conflicts := [],
            resolutions := [\<lparr>conflictId = ''c1'', resolved = ''Greetings.'',
                             resolution_source = External, confidence = 1\<rparr>]\<rparr>)"
    by auto
  from resolveConflict_plain_text [OF d, of example_result "''c2''"] n
  have 2: "resolveConflict example_result ''c2'' ''Greetings.'' = Inl (ConflictNotFound ''c2'')"
    by simp
  show ?thesis using 1 2 by simp
qed

text \<open>
  A replacement text with a dollar pattern is not inserted literally: \<^verbatim>\<open>$$\<close> becomes one
  dollar sign and \<^verbatim>\<open>$&\<close> the marker block itself.
\<close>

theorem resolveConflict_dollar_counterexample:
  "resolveConflict example_result ''c1'' ''Costs $$5.'' =
     Inr (example_result\<lparr>merged := ''Costs $5.'', conflicts := [],
            resolutions := [\<lparr>conflictId = ''c1'', resolved = ''Costs $$5.'',
                             resolution_source = External, confidence = 1\<rparr>]\<rparr>)"
  by code_simp

section \<open>Properties of the segmentation\<close>

text \<open>
  After an abbreviation, \<open>splitSentences\<close> joins the parts again with one space. When
  the text had two spaces there, the joined sentence does not occur in the text, and
  \<open>segment\<close> skips it: no unit is left and the text is lost.
\<close>

theorem segment_abbreviation_counterexample:
  "segment ''Dr.  Smith'' = [] \<and> trim (reconstruct (segment ''Dr.  Smith'')) = [] \<and>
   trim ''Dr.  Smith'' = ''Dr.  Smith''"
  by code_simp

section \<open>Properties of the alignment\<close>

definition well_shaped :: "AlignedPair \<Rightarrow> bool" where
  "well_shaped p =
     (case pair_type p of
        Insertion \<Rightarrow> source p = None \<and> target p \<noteq> None
      | Deletion \<Rightarrow> source p \<noteq> None \<and> target p = None
      | Match \<Rightarrow> source p \<noteq> None \<and> target p \<noteq> None
      | Modification \<Rightarrow> source p \<noteq> None \<and> target p \<noteq> None)"

lemma seq_backtrack_shape:
  "i \<le> length src \<Longrightarrow> j \<le> length tgt \<Longrightarrow> \<forall>p\<in>set acc. well_shaped p \<Longrightarrow>
   \<forall>p\<in>set (seq_backtrack src tgt matrix thr bt i j acc). well_shaped p"
proof (induction src tgt matrix thr bt i j acc rule: seq_backtrack.induct)
  case (1 src tgt matrix thr bt i j acc)
  have m: "well_shaped (matched_pair src tgt matrix thr i j)" if "i > 0" "j > 0"
    using that "1.prems"(1,2) by (auto simp add: well_shaped_def matched_pair_def nth_opt_def)
  have d: "well_shaped (deletion_pair (nth_opt src (i - 1)))" if "i > 0"
    using that "1.prems"(1) by (simp add: well_shaped_def deletion_pair_def nth_opt_def)
  have n: "well_shaped (insertion_pair (nth_opt tgt (j - 1)))" if "j > 0"
    using that "1.prems"(2) by (simp add: well_shaped_def insertion_pair_def nth_opt_def)
  show ?case
  proof (cases "i > 0 \<or> j > 0")
    case False
    then show ?thesis using "1.prems"(3) by (subst seq_backtrack.simps) simp
  next
    case True
    consider (a) "action_at bt i j = MatchAction \<and> i > 0 \<and> j > 0"
      | (b) "\<not> (action_at bt i j = MatchAction \<and> i > 0 \<and> j > 0)"
            "action_at bt i j = DeleteAction \<and> i > 0"
      | (c) "\<not> (action_at bt i j = MatchAction \<and> i > 0 \<and> j > 0)"
            "\<not> (action_at bt i j = DeleteAction \<and> i > 0)" "j > 0"
      | (d) "\<not> (action_at bt i j = MatchAction \<and> i > 0 \<and> j > 0)"
            "\<not> (action_at bt i j = DeleteAction \<and> i > 0)" "\<not> j > 0"
      by blast
    then show ?thesis
    proof cases
      case a
      have "\<forall>p\<in>set (seq_backtrack src tgt matrix thr bt (i - 1) (j - 1)
                        (matched_pair src tgt matrix thr i j # acc)). well_shaped p"
        using "1.IH"(1) [OF True a] "1.prems" m a by simp
      then show ?thesis using True a by (subst seq_backtrack.simps) simp
    next
      case b
      have "\<forall>p\<in>set (seq_backtrack src tgt matrix thr bt (i - 1) j
                        (deletion_pair (nth_opt src (i - 1)) # acc)). well_shaped p"
        using "1.IH"(2) [OF True b] "1.prems" d b by simp
      then show ?thesis using True b by (subst seq_backtrack.simps) simp
    next
      case c
      have "\<forall>p\<in>set (seq_backtrack src tgt matrix thr bt i (j - 1)
                        (insertion_pair (nth_opt tgt (j - 1)) # acc)). well_shaped p"
        using "1.IH"(3) [OF True c] "1.prems" n c by simp
      then show ?thesis using True c by (subst seq_backtrack.simps) auto
    next
      case d
      then show ?thesis using True "1.prems"(3) by (subst seq_backtrack.simps) simp
    qed
  qed
qed

lemma sequentialAlign_shape:
  "\<forall>p\<in>set (pairs (sequentialAlign src tgt matrix opts)). well_shaped p"
  using seq_backtrack_shape [of "length src" src "length tgt" tgt "[]"]
  by (simp add: sequentialAlign_def)

lemma candidates_bounds:
  "c \<in> set (candidates m n matrix thr) \<Longrightarrow> fst c < m \<and> fst (snd c) < n"
  by (auto simp: candidates_def split: if_splits)

lemma greedy_shape:
  "\<forall>c\<in>set cs. fst c < length src \<and> fst (snd c) < length tgt \<Longrightarrow>
   \<forall>p\<in>set (fst st). well_shaped p \<Longrightarrow>
   \<forall>p\<in>set (fst (foldl (greedy_step src tgt) st cs)). well_shaped p"
proof (induction cs arbitrary: st)
  case Nil
  then show ?case by simp
next
  case (Cons c cs)
  have "\<forall>p\<in>set (fst (greedy_step src tgt st c)). well_shaped p"
    using Cons.prems
    by (auto simp: greedy_step_def well_shaped_def nth_opt_def split: prod.splits)
  then show ?case using Cons.IH [of "greedy_step src tgt st c"] Cons.prems(1) by simp
qed

lemma semanticAlign_shape:
  "\<forall>p\<in>set (pairs (semanticAlign src tgt matrix opts)). well_shaped p"
proof -
  define cs where "cs = sort_key (\<lambda>(i, j, sim). - sim)
      (candidates (length src) (length tgt) matrix (matchThreshold opts))"
  define st where "st = foldl (greedy_step src tgt) ([], {}, {}) cs"
  have b: "\<forall>c\<in>set cs. fst c < length src \<and> fst (snd c) < length tgt"
    using candidates_bounds [of _ "length src" "length tgt" matrix "matchThreshold opts"]
    by (simp add: cs_def)
  have g: "\<forall>p\<in>set (fst st). well_shaped p"
    unfolding st_def by (rule greedy_shape [OF b]) simp
  have d: "well_shaped (deletion_pair (nth_opt src i))" if "i < length src" for i
    using that by (simp add: well_shaped_def deletion_pair_def nth_opt_def)
  have n: "well_shaped (insertion_pair (nth_opt tgt j))" if "j < length tgt" for j
    using that by (simp add: well_shaped_def insertion_pair_def nth_opt_def)
  obtain ps ms mt where s: "st = (ps, ms, mt)" by (cases st)
  have "pairs (semanticAlign src tgt matrix opts) =
      sort_key pair_pos
        (ps @ map (\<lambda>i. deletion_pair (nth_opt src i)) (filter (\<lambda>i. i \<notin> ms) [0..<length src]) @
         map (\<lambda>j. insertion_pair (nth_opt tgt j)) (filter (\<lambda>j. j \<notin> mt) [0..<length tgt]))"
    using s by (simp add: semanticAlign_def st_def cs_def)
  then show ?thesis using g s d n by auto
qed

lemma move_step_shape:
  assumes "d < length ps" "k < length ps" "\<forall>p\<in>set ps. well_shaped p"
  shows "length (move_step src tgt matrix thr d ps k) = length ps \<and>
         (\<forall>p\<in>set (move_step src tgt matrix thr d ps k). well_shaped p)"
proof -
  have upd: "\<forall>p\<in>set (xs[i := x]). well_shaped p"
    if "\<forall>p\<in>set xs. well_shaped p" "well_shaped x" for xs i x
    using that set_update_subset_insert [of xs i x] by auto
  have two: "\<forall>p\<in>set ((ps[d := (ps ! d)\<lparr>target := Some t, similarity := v, pair_type := Modification\<rparr>])
                        [k := ((ps[d := (ps ! d)\<lparr>target := Some t, similarity := v,
                                                 pair_type := Modification\<rparr>]) ! k)
                              \<lparr>source := Some s, pair_type := Modification\<rparr>]). well_shaped p"
    if "source (ps ! d) = Some s" "target (ps ! k) = Some t" for s t v
  proof (rule upd, rule upd)
    show "\<forall>p\<in>set ps. well_shaped p" by (rule assms(3))
    show "well_shaped ((ps ! d)\<lparr>target := Some t, similarity := v, pair_type := Modification\<rparr>)"
      using that by (simp add: well_shaped_def)
    show "well_shaped (((ps[d := (ps ! d)\<lparr>target := Some t, similarity := v,
                                         pair_type := Modification\<rparr>]) ! k)
                       \<lparr>source := Some s, pair_type := Modification\<rparr>)"
      using that assms(1,2) by (cases "k = d") (simp_all add: well_shaped_def)
  qed
  show ?thesis
    using assms(3) two
    by (auto simp: move_step_def Let_def split: option.splits)
qed

lemma move_row_shape:
  "d < length ps \<Longrightarrow> \<forall>k\<in>set ks. k < length ps \<Longrightarrow> \<forall>p\<in>set ps. well_shaped p \<Longrightarrow>
   length (foldl (move_step src tgt matrix thr d) ps ks) = length ps \<and>
   (\<forall>p\<in>set (foldl (move_step src tgt matrix thr d) ps ks). well_shaped p)"
proof (induction ks arbitrary: ps)
  case Nil
  then show ?case by simp
next
  case (Cons k ks)
  have k: "k < length ps" using Cons.prems(2) by simp
  note s = move_step_shape [OF Cons.prems(1) k Cons.prems(3), of src tgt matrix thr]
  show ?case
    using Cons.IH [of "move_step src tgt matrix thr d ps k"] s Cons.prems(1,2) by simp
qed

lemma move_rows_shape:
  "\<forall>d\<in>set ds. d < length ps \<Longrightarrow> \<forall>k\<in>set ks. k < length ps \<Longrightarrow> \<forall>p\<in>set ps. well_shaped p \<Longrightarrow>
   length (foldl (\<lambda>ps d. foldl (move_step src tgt matrix thr d) ps ks) ps ds) = length ps \<and>
   (\<forall>p\<in>set (foldl (\<lambda>ps d. foldl (move_step src tgt matrix thr d) ps ks) ps ds). well_shaped p)"
proof (induction ds arbitrary: ps)
  case Nil
  then show ?case by simp
next
  case (Cons d ds)
  have d: "d < length ps" using Cons.prems(1) by simp
  note s = move_row_shape [OF d Cons.prems(2,3), of src tgt matrix thr]
  show ?case
    using Cons.IH [of "foldl (move_step src tgt matrix thr d) ps ks"] s Cons.prems(1,2) by simp
qed

lemma dedupe_subset: "set (dedupe seen ps) \<subseteq> set ps"
  by (induction ps arbitrary: seen) auto

lemma hybridAlign_shape:
  "\<forall>p\<in>set (pairs (hybridAlign src tgt matrix opts)). well_shaped p"
proof -
  define seqPairs where "seqPairs = pairs (sequentialAlign src tgt matrix opts)"
  define ds where "ds = filter (\<lambda>i. pair_type (seqPairs ! i) = Deletion) [0..<length seqPairs]"
  define ks where "ks = filter (\<lambda>i. pair_type (seqPairs ! i) = Insertion) [0..<length seqPairs]"
  have s: "\<forall>p\<in>set seqPairs. well_shaped p"
    unfolding seqPairs_def by (rule sequentialAlign_shape)
  have "\<forall>d\<in>set ds. d < length seqPairs" "\<forall>k\<in>set ks. k < length seqPairs"
    by (simp_all add: ds_def ks_def)
  from move_rows_shape [OF this s, of src tgt matrix "matchThreshold opts"]
  have "\<forall>p\<in>set (foldl (\<lambda>ps d. foldl (move_step src tgt matrix (matchThreshold opts) d) ps ks)
                      seqPairs ds). well_shaped p"
    by simp
  then show ?thesis
    using dedupe_subset
    by (auto simp: hybridAlign_def Let_def seqPairs_def ds_def ks_def)
qed

lemma align_shape:
  assumes "align provide src tgt opts = Inr res" "p \<in> set (pairs res)"
  shows "well_shaped p"
proof -
  have i: "well_shaped (insertion_pair (Some t))" for t
    by (simp add: well_shaped_def insertion_pair_def)
  have d: "well_shaped (deletion_pair (Some s))" for s
    by (simp add: well_shaped_def deletion_pair_def)
  show ?thesis
    using assms i d sequentialAlign_shape [of src tgt _ opts]
      semanticAlign_shape [of src tgt _ opts] hybridAlign_shape [of src tgt _ opts]
    by (auto simp: align_def Let_def split: if_splits sum.splits Strategy.splits)
qed

text \<open>
  C7. Every pair returned by \<open>align\<close>, under each of the three strategies, has the shape
  of its type: an insertion has no source and a target, a deletion a source and no
  target, a match or a modification both.
\<close>

theorem align_pair_shape:
  assumes "align provide src tgt opts = Inr res" "p \<in> set (pairs res)"
  shows "(pair_type p = Insertion \<longrightarrow> source p = None \<and> target p \<noteq> None) \<and>
         (pair_type p = Deletion \<longrightarrow> source p \<noteq> None \<and> target p = None) \<and>
         (pair_type p = Match \<or> pair_type p = Modification \<longrightarrow>
            source p \<noteq> None \<and> target p \<noteq> None)"
  using align_shape [OF assms] by (cases "pair_type p") (simp_all add: well_shaped_def)

definition unit_of :: "string \<Rightarrow> nat \<Rightarrow> SemanticUnit" where
  "unit_of text n =
     \<lparr>content = text, hash = createHash text, index = n, start = 0, end_offset = length text,
      prefix = [], suffix = [], metadata = None\<rparr>"

lemma matrix_example: "similarityMatrix (Suc 0) (Suc 0) [] [] = Inr [[0]]"
  by (simp add: similarityMatrix_def matrix_cell_def nth_opt_def)

lemma fill_example:
  "seq_fill [[0]] (matchThreshold DEFAULT_ALIGN_OPTIONS) (Suc 0) (Suc 0) =
     ([[0, 0], [0, - 0.1]], [[NoAction, InsertAction], [DeleteAction, DeleteAction]])"
  by (simp add: seq_fill_def seq_init_def seq_step_def cell_def set_cell_def
      DEFAULT_ALIGN_OPTIONS_def)

lemma backtrack_example:
  "seq_backtrack [s] [t] [[0]] thr [[NoAction, InsertAction], [DeleteAction, DeleteAction]]
     (Suc 0) (Suc 0) [] =
   [insertion_pair (Some t), deletion_pair (Some s)]"
  by (simp add: seq_backtrack.simps [of _ _ _ _ _ "Suc 0" "Suc 0"]
      seq_backtrack.simps [of _ _ _ _ _ 0 "Suc 0"] seq_backtrack.simps [of _ _ _ _ _ 0 0]
      action_at_def nth_opt_def)

definition example_pairs :: "AlignedPair list" where
  "example_pairs =
     [insertion_pair (Some (unit_of ''New.'' 0)), deletion_pair (Some (unit_of ''Old.'' 0))]"

lemma align_example:
  "align (\<lambda>texts. []) [unit_of ''Old.'' 0] [unit_of ''New.'' 0] DEFAULT_ALIGN_OPTIONS =
     Inr \<lparr>pairs = example_pairs, unmatchedSource = [], unmatchedTarget = []\<rparr>"
proof -
  define U where "U = [unit_of ''Old.'' 0]"
  define V where "V = [unit_of ''New.'' 0]"
  have seq: "pairs (sequentialAlign U V [[0]] DEFAULT_ALIGN_OPTIONS) = example_pairs"
    by (simp add: sequentialAlign_def U_def V_def fill_example backtrack_example
        example_pairs_def)
  have del: "filter (\<lambda>i. pair_type (example_pairs ! i) = Deletion) [0..<length example_pairs] =
      [Suc 0]"
    by (simp add: example_pairs_def insertion_pair_def deletion_pair_def)
  have ins: "filter (\<lambda>i. pair_type (example_pairs ! i) = Insertion) [0..<length example_pairs] =
      [0]"
    by (simp add: example_pairs_def insertion_pair_def deletion_pair_def)
  have mv: "move_step U V [[0]] (matchThreshold DEFAULT_ALIGN_OPTIONS) (Suc 0) example_pairs 0 =
      example_pairs"
    by (simp add: move_step_def U_def V_def example_pairs_def insertion_pair_def
        deletion_pair_def DEFAULT_ALIGN_OPTIONS_def)
  have dd: "dedupe [] example_pairs = example_pairs"
    by code_simp
  have hy: "hybridAlign U V [[0]] DEFAULT_ALIGN_OPTIONS =
      \<lparr>pairs = example_pairs, unmatchedSource = [], unmatchedTarget = []\<rparr>"
    unfolding hybridAlign_def Let_def seq del ins by (simp add: mv dd)
  have st: "strategy DEFAULT_ALIGN_OPTIONS = Hybrid" by (simp add: DEFAULT_ALIGN_OPTIONS_def)
  show ?thesis
    using hy unfolding U_def V_def by (simp add: align_def matrix_example st)
qed

theorem align_pair_shape_witness:
  "pair_type (deletion_pair (Some (unit_of ''Old.'' 0))) = Deletion \<and>
   source (deletion_pair (Some (unit_of ''Old.'' 0))) \<noteq> None \<and>
   target (deletion_pair (Some (unit_of ''Old.'' 0))) = None"
  using align_pair_shape [OF align_example, of "deletion_pair (Some (unit_of ''Old.'' 0))"]
  by (simp add: deletion_pair_def example_pairs_def)

section \<open>Properties of the sequential alignment\<close>




























section \<open>Properties of the merge\<close>

lemma reconstruct_loop_ends:
  "\<exists>mid. reconstruct_loop (p @ x @ suffix v) (Some v) us = p @ mid @ suffix (last (v # us))"
proof (induction us arbitrary: x v)
  case Nil
  show ?case by simp
next
  case (Cons w ws)
  define sp where "sp = (if p @ x @ suffix v \<noteq> [] \<and> \<not> (hasSpace (suffix v) \<or> hasSpace (prefix w))
                         then '' '' else [])"
  have "reconstruct_loop (p @ x @ suffix v) (Some v) (w # ws) =
        reconstruct_loop (p @ (x @ suffix v @ sp @ prefix w @ content w) @ suffix w) (Some w) ws"
    by (simp add: sp_def)
  moreover obtain mid where
    "reconstruct_loop (p @ (x @ suffix v @ sp @ prefix w @ content w) @ suffix w) (Some w) ws =
       p @ mid @ suffix (last (w # ws))"
    using Cons.IH [of "x @ suffix v @ sp @ prefix w @ content w" w] ..
  ultimately show ?case by simp
qed

lemma reconstruct_ends:
  assumes "us \<noteq> []"
  shows "\<exists>mid. reconstruct us = prefix (hd us) @ mid @ suffix (last us)"
proof -
  obtain u ws where us: "us = u # ws" using assms by (cases us) auto
  have "reconstruct us = reconstruct_loop (prefix u @ content u @ suffix u) (Some u) ws"
    by (simp add: reconstruct_def us)
  then show ?thesis using reconstruct_loop_ends [of "prefix u" "content u" u ws] us by simp
qed

lemma sortUnits_sorted: "sorted (map unit_key (sortUnits us))"
  by (simp add: sortUnits_def)

lemma count_insort: "count_list (insort_key f x xs) u = count_list (x # xs) u"
  by (induction xs) auto

lemma sortUnits_count: "count_list (sortUnits us) u = count_list us u"
  unfolding sortUnits_def by (induction us) (simp_all add: count_insort)

lemma sortUnits_stable:
  "filter (\<lambda>u. unit_key u = k) (sortUnits us) = filter (\<lambda>u. unit_key u = k) us"
  unfolding sortUnits_def by (rule sort_key_stable)

lemma unit_key_le:
  "unit_key u \<le> unit_key v \<longleftrightarrow>
     index u < index v \<or> (index u = index v \<and> map code (hash u) \<le> map code (hash v))"
  by (auto simp: unit_key_def)

text \<open>
  C5, as the program has it. When both alignments return, \<open>merge\<close> returns, and its
  text is the reconstruction of the emitted units, sorted stably by index and then by
  hash. It is not trimmed: it begins with the prefix of the first of these units and
  ends with the suffix of the last.
\<close>

theorem merge_final_assembly:
  assumes "align provide (segment a) (segment b) DEFAULT_ALIGN_OPTIONS = Inr ab"
    and "align provide (segment a) (segment c) DEFAULT_ALIGN_OPTIONS = Inr ac"
    and "units = mergedUnits (merge_loops gen strat (segment a) (segment c) (pairs ab) (pairs ac))"
  shows "\<exists>r. merge provide gen strat a b c = Inr r \<and>
           merged r = reconstruct (sortUnits units) \<and>
           sorted (map unit_key (sortUnits units)) \<and>
           (\<forall>u. count_list (sortUnits units) u = count_list units u) \<and>
           (\<forall>k. filter (\<lambda>u. unit_key u = k) (sortUnits units) =
                filter (\<lambda>u. unit_key u = k) units) \<and>
           (units \<noteq> [] \<longrightarrow>
              (\<exists>mid. merged r =
                 prefix (hd (sortUnits units)) @ mid @ suffix (last (sortUnits units))))"
proof -
  define r where "r =
    \<lparr>merged = reconstruct (sortUnits units),
     conflicts = st_conflicts (merge_loops gen strat (segment a) (segment c) (pairs ab) (pairs ac)),
     resolutions = st_resolutions (merge_loops gen strat (segment a) (segment c) (pairs ab) (pairs ac)),
     stats = st_stats (merge_loops gen strat (segment a) (segment c) (pairs ab) (pairs ac))\<rparr>"
  have m: "merge provide gen strat a b c = Inr r"
    by (simp add: merge_def assms Let_def r_def)
  have t: "merged r = reconstruct (sortUnits units)" by (simp add: r_def)
  have e: "\<exists>mid. merged r = prefix (hd (sortUnits units)) @ mid @ suffix (last (sortUnits units))"
    if "units \<noteq> []"
  proof -
    have "length (sortUnits units) = length units" by (simp add: sortUnits_def)
    then have "sortUnits units \<noteq> []" using that by auto
    from reconstruct_ends [OF this] show ?thesis by (simp add: t)
  qed
  show ?thesis
    using m t e sortUnits_sorted [of units] sortUnits_count [of units] sortUnits_stable [of _ units]
    by blast
qed

text \<open>An example: the three texts are the same sentence followed by two line breaks.\<close>

definition example_text :: string where
  "example_text = ''Content here.'' @ [CHR 0x0A, CHR 0x0A]"

definition example_unit :: SemanticUnit where
  "example_unit =
     \<lparr>content = ''Content here.'', hash = createHash ''content here'', index = 0, start = 0,
      end_offset = 13, prefix = [], suffix = [CHR 0x0A, CHR 0x0A], metadata = None\<rparr>"

definition example_match :: AlignedPair where
  "example_match =
     \<lparr>source = Some example_unit, target = Some example_unit, similarity = 1, pair_type = Match\<rparr>"

text \<open>A provider that gives every text the same vector, so that all similarities are 1.\<close>

definition unit_provider :: provider where
  "unit_provider texts = map (\<lambda>t. [1]) texts"

lemma segment_example: "segment example_text = [example_unit]"
  by code_simp

lemma cosine_example: "cosineSimilarity [1] [1] = Inr 1"
  by (simp add: cosineSimilarity_def cosine_step_def)

lemma matrix_ones: "similarityMatrix (Suc 0) (Suc 0) [[1]] [[1]] = Inr [[1]]"
  by (simp add: similarityMatrix_def matrix_cell_def nth_opt_def cosine_example)

lemma fill_ones:
  "seq_fill [[1]] (matchThreshold DEFAULT_ALIGN_OPTIONS) (Suc 0) (Suc 0) =
     ([[0, 0], [0, 1]], [[NoAction, InsertAction], [DeleteAction, MatchAction]])"
  by (simp add: seq_fill_def seq_init_def seq_step_def cell_def set_cell_def
      DEFAULT_ALIGN_OPTIONS_def)

lemma backtrack_ones:
  "seq_backtrack [s] [t] [[1]] (matchThreshold DEFAULT_ALIGN_OPTIONS)
     [[NoAction, InsertAction], [DeleteAction, MatchAction]] (Suc 0) (Suc 0) [] =
   [\<lparr>source = Some s, target = Some t, similarity = 1, pair_type = Match\<rparr>]"
  by (simp add: seq_backtrack.simps [of _ _ _ _ _ "Suc 0" "Suc 0"]
      seq_backtrack.simps [of _ _ _ _ _ 0 0] action_at_def nth_opt_def matched_pair_def
      DEFAULT_ALIGN_OPTIONS_def)

lemma align_same_example:
  "align unit_provider [example_unit] [example_unit] DEFAULT_ALIGN_OPTIONS =
     Inr \<lparr>pairs = [example_match], unmatchedSource = [], unmatchedTarget = []\<rparr>"
proof -
  have seq: "pairs (sequentialAlign [example_unit] [example_unit] [[1]] DEFAULT_ALIGN_OPTIONS) =
      [example_match]"
    by (simp add: sequentialAlign_def fill_ones backtrack_ones example_match_def)
  have del: "filter (\<lambda>i. pair_type ([example_match] ! i) = Deletion) [0..<length [example_match]] = []"
    by (simp add: example_match_def)
  have ins: "filter (\<lambda>i. pair_type ([example_match] ! i) = Insertion) [0..<length [example_match]] = []"
    by (simp add: example_match_def)
  have hy: "hybridAlign [example_unit] [example_unit] [[1]] DEFAULT_ALIGN_OPTIONS =
      \<lparr>pairs = [example_match], unmatchedSource = [], unmatchedTarget = []\<rparr>"
    unfolding hybridAlign_def Let_def seq del ins by simp
  have st: "strategy DEFAULT_ALIGN_OPTIONS = Hybrid" by (simp add: DEFAULT_ALIGN_OPTIONS_def)
  show ?thesis
    using hy by (simp add: align_def unit_provider_def matrix_ones st)
qed

lemma loops_example:
  "merge_loops gen strat [example_unit] [example_unit] [example_match] [example_match] =
     initial_state
       \<lparr>mergedUnits := [example_unit],
        st_stats := \<lparr>unchanged = 1, upgraded = 0, preserved = 0, removed = 0, conflicts_seen = 0,
                     autoResolved = 0\<rparr>,
        processedBUnits := {hash example_unit}\<rparr>"
  by (simp add: merge_loops_def unit_step_def lookup_pair_def pair_changed_def change_target_def
      add_processed_def c_insertion_step_def b_insertion_step_def initial_state_def
      example_match_def)

lemma merge_example:
  "merge unit_provider gen strat example_text example_text example_text =
     Inr \<lparr>merged = example_text, conflicts = [], resolutions = [],
          stats = \<lparr>unchanged = 1, upgraded = 0, preserved = 0, removed = 0, conflicts_seen = 0,
                    autoResolved = 0\<rparr>\<rparr>"
proof -
  have r: "reconstruct (sortUnits [example_unit]) = example_text"
    by (simp add: sortUnits_def reconstruct_def example_unit_def example_text_def)
  show ?thesis
    by (simp add: merge_def segment_example align_same_example loops_example r initial_state_def)
qed

theorem merge_final_assembly_witness:
  "\<exists>r. merge unit_provider (\<lambda>n. []) PreferC example_text example_text example_text = Inr r \<and>
       merged r = reconstruct (sortUnits [example_unit]) \<and>
       (\<exists>mid. merged r = prefix example_unit @ mid @ suffix example_unit)"
proof -
  have a: "align unit_provider (segment example_text) (segment example_text) DEFAULT_ALIGN_OPTIONS =
      Inr \<lparr>pairs = [example_match], unmatchedSource = [], unmatchedTarget = []\<rparr>"
    by (simp add: segment_example align_same_example)
  have u: "[example_unit] =
      mergedUnits (merge_loops (\<lambda>n. []) PreferC (segment example_text) (segment example_text)
        (pairs \<lparr>pairs = [example_match], unmatchedSource = [], unmatchedTarget = []\<rparr>)
        (pairs \<lparr>pairs = [example_match], unmatchedSource = [], unmatchedTarget = []\<rparr>))"
    by (simp add: segment_example loops_example)
  have s: "sortUnits [example_unit] = [example_unit]" by (simp add: sortUnits_def)
  from merge_final_assembly [OF a a u] show ?thesis
    unfolding s by auto
qed

text \<open>
  The merged text of the example is the text itself, with the two line breaks at its
  end: it is not trimmed.
\<close>

theorem merge_untrimmed_counterexample:
  "merge unit_provider (\<lambda>n. []) PreferC example_text example_text example_text =
     Inr \<lparr>merged = ''Content here.'' @ [CHR 0x0A, CHR 0x0A], conflicts = [], resolutions = [],
          stats = \<lparr>unchanged = 1, upgraded = 0, preserved = 0, removed = 0, conflicts_seen = 0,
                    autoResolved = 0\<rparr>\<rparr> \<and>
   trim (''Content here.'' @ [CHR 0x0A, CHR 0x0A]) = ''Content here.''"
proof -
  have t: "trim (''Content here.'' @ [CHR 0x0A, CHR 0x0A]) = ''Content here.''" by code_simp
  show ?thesis using merge_example [of "\<lambda>n. []" PreferC] t by (simp add: example_text_def)
qed

section \<open>The round trip of the segmentation\<close>

text \<open>The text that \<open>reconstruct\<close> writes for one unit.\<close>

definition unit_text :: "SemanticUnit \<Rightarrow> string" where
  "unit_text u = prefix u @ content u @ suffix u"

text \<open>
  \<open>spaced units\<close>: between two units that follow each other, the suffix of the first or
  the prefix of the second has whitespace, so that \<open>reconstruct\<close> adds no space.
\<close>

fun spaced :: "SemanticUnit list \<Rightarrow> bool" where
  "spaced (u # v # us) = ((hasSpace (suffix u) \<or> hasSpace (prefix v)) \<and> spaced (v # us))"
| "spaced us = True"

lemma indexOf_from:
  assumes "indexOf s p k = Some i" "p \<noteq> []"
  shows "k \<le> i \<and> take (length p) (drop i s) = p"
proof -
  from assms have k: "k \<le> length s" and f: "find_from p (drop k s) k = Some i"
    by (auto simp: indexOf_def split: if_splits)
  note ff = find_from_Some [OF f]
  have le: "k \<le> i" by (rule conjunct1 [OF ff])
  have t: "take (length p) (drop (i - k) (drop k s)) = p" by (rule conjunct2 [OF ff])
  have e: "drop (i - k) (drop k s) = drop i s" using le by simp
  from t [unfolded e] le show ?thesis by simp
qed

lemma strip_both:
  fixes P :: "'a \<Rightarrow> bool"
  assumes "dropWhile P xs \<noteq> []"
  defines "pre \<equiv> takeWhile P xs" and "suf \<equiv> rev (takeWhile P (rev xs))"
  defines "mid \<equiv> take (length xs - length suf - length pre) (drop (length pre) xs)"
  shows "xs = pre @ mid @ suf" and "mid \<noteq> []" and "\<not> P (hd mid)" and "\<not> P (last mid)"
proof -
  define rest where "rest = dropWhile P xs"
  have xs: "xs = pre @ rest" by (simp add: pre_def rest_def)
  have rest: "rest \<noteq> []" using assms(1) by (simp add: rest_def)
  have hr: "\<not> P (hd rest)" unfolding rest_def using assms(1) by (rule hd_dropWhile)
  have dr: "drop (length pre) xs = rest" using xs by simp
  define w where "w = takeWhile P (rev rest)"
  define b where "b = dropWhile P (rev rest)"
  have rr: "rev rest = w @ b" by (simp add: w_def b_def)
  have mem: "hd rest \<in> set (rev rest)" using rest by simp
  have tw: "takeWhile P (rev xs) = w"
  proof -
    have "rev xs = rev rest @ rev pre" using xs by simp
    then show ?thesis
      unfolding w_def using takeWhile_append1 [of "hd rest" "rev rest" P "rev pre"] mem hr by simp
  qed
  have b: "b \<noteq> []"
  proof
    assume "b = []"
    then have "rev rest = w" using rr by simp
    then have "\<forall>x\<in>set (rev rest). P x" unfolding w_def by (metis set_takeWhileD)
    then show False using mem hr by blast
  qed
  have hb: "\<not> P (hd b)" unfolding b_def using b [unfolded b_def] by (rule hd_dropWhile)
  have rest_eq: "rest = rev b @ rev w" using rr by (metis rev_append rev_rev_ident)
  have suf: "suf = rev w" by (simp add: suf_def tw)
  have len: "length xs - length suf - length pre = length b"
    using xs rest_eq suf by simp
  have mid: "mid = rev b" unfolding mid_def len dr rest_eq by simp
  show "xs = pre @ mid @ suf" using xs rest_eq mid suf by simp
  show "mid \<noteq> []" using mid b by simp
  show "\<not> P (last mid)" using mid b hb by (simp add: last_rev)
  have "hd (rev b) = hd rest" using rest_eq b by simp
  then show "\<not> P (hd mid)" using mid hr by simp
qed

lemma trim_stripped:
  assumes "s \<noteq> []" "\<not> isSpace (hd s)" "\<not> isSpace (last s)"
  shows "trim s = s"
proof -
  have 1: "dropWhile isSpace s = s" using assms(1,2) by (cases s) simp_all
  have "rev s \<noteq> []" "\<not> isSpace (hd (rev s))" using assms(1,3) by (simp_all add: hd_rev)
  then have 2: "dropWhile isSpace (rev s) = rev s" by (cases "rev s") simp_all
  show ?thesis by (simp add: trim_def trimStart_def trimEnd_def 1 2)
qed

lemma extract_raw:
  assumes "extractWhitespace raw = (pre, c0, suf)" "trim c0 \<noteq> []"
  shows "pre @ trim c0 @ suf = raw"
proof -
  have pre: "pre = takeWhile isSpace raw" and suf: "suf = rev (takeWhile isSpace (rev raw))"
    and c0: "c0 = take (length raw - length suf - length pre) (drop (length pre) raw)"
    using assms(1) by (auto simp: extractWhitespace_def Let_def slice_def)
  have ne: "dropWhile isSpace raw \<noteq> []"
  proof
    assume "dropWhile isSpace raw = []"
    then have "length pre = length raw"
      unfolding pre by (metis append_Nil2 takeWhile_dropWhile_id)
    then have "c0 = []" using c0 by simp
    then show False using assms(2) by (simp add: trim_def trimStart_def trimEnd_def)
  qed
  note s = strip_both [OF ne, folded pre suf, folded c0]
  have "trim c0 = c0" by (rule trim_stripped [OF s(2) s(3) s(4)])
  then show ?thesis using s(1) by simp
qed

lemma segment_step_tiles:
  assumes "concat (map unit_text units) = take off text"
  shows "concat (map unit_text (fst (segment_step text (units, off) raw))) =
         take (snd (segment_step text (units, off) raw)) text"
proof (cases "raw = []")
  case True
  then show ?thesis using assms by (simp add: segment_step_def)
next
  case raw: False
  show ?thesis
  proof (cases "indexOf text raw off")
    case None
    then show ?thesis using assms raw by (simp add: segment_step_def)
  next
    case (Some idx)
    obtain pre c0 suf where e: "extractWhitespace raw = (pre, c0, suf)"
      by (cases "extractWhitespace raw") auto
    show ?thesis
    proof (cases "trim c0 = []")
      case True
      then show ?thesis using assms raw Some e by (simp add: segment_step_def)
    next
      case False
      from indexOf_from [OF Some raw] have le: "off \<le> idx"
        and occ: "take (length raw) (drop idx text) = raw" by simp_all
      have r: "pre @ trim c0 @ suf = raw" by (rule extract_raw [OF e False])
      have "take off text @ take (idx - off) (drop off text) = take (off + (idx - off)) text"
        by (simp add: take_add)
      then have 1: "take off text @ slice text off idx = take idx text"
        using le by (simp add: slice_def)
      have 2: "take idx text @ raw = take (idx + length raw) text"
        using occ by (simp add: take_add)
      have "concat (map unit_text (fst (segment_step text (units, off) raw))) =
            take off text @ slice text off idx @ pre @ trim c0 @ suf"
        using assms raw Some e False by (simp add: segment_step_def unit_text_def Let_def)
      also have "\<dots> = (take off text @ slice text off idx) @ raw" using r by simp
      also have "\<dots> = take (idx + length raw) text" by (simp only: 1 2)
      finally show ?thesis using raw Some e False by (simp add: segment_step_def Let_def)
    qed
  qed
qed

lemma segment_loop_tiles:
  "concat (map unit_text (fst st)) = take (snd st) text \<Longrightarrow>
   concat (map unit_text (fst (foldl (segment_step text) st raws))) =
     take (snd (foldl (segment_step text) st raws)) text"
proof (induction raws arbitrary: st)
  case Nil
  then show ?case by simp
next
  case (Cons raw raws)
  obtain units off where st: "st = (units, off)" by (cases st)
  have p: "concat (map unit_text units) = take off text" using Cons.prems st by simp
  have "concat (map unit_text (fst (segment_step text st raw))) =
        take (snd (segment_step text st raw)) text"
    unfolding st by (rule segment_step_tiles [OF p])
  from Cons.IH [OF this] show ?case by simp
qed

lemma segment_tiles:
  assumes "segment text \<noteq> []"
  shows "concat (map unit_text (segment text)) = text"
proof -
  obtain units off where
    f: "foldl (segment_step text) ([], 0) (splitPreservingCodeBlocks text splitSentences) =
          (units, off)"
    by (cases "foldl (segment_step text) ([], 0) (splitPreservingCodeBlocks text splitSentences)")
  have t: "concat (map unit_text units) = take off text"
    using segment_loop_tiles [of "([], 0)" "text" "splitPreservingCodeBlocks text splitSentences"]
    by (simp add: f)
  show ?thesis
  proof (cases "units \<noteq> [] \<and> off < length text")
    case True
    then have u: "units = butlast units @ [last units]" by simp
    have s: "segment text =
        butlast units @ [(last units)\<lparr>suffix := suffix (last units) @ drop off text\<rparr>]"
      using True by (simp add: segment_def f)
    have "concat (map unit_text (segment text)) =
        concat (map unit_text (butlast units)) @ unit_text (last units) @ drop off text"
      unfolding s by (simp add: unit_text_def)
    also have "\<dots> = concat (map unit_text (butlast units @ [last units])) @ drop off text"
      by simp
    also have "\<dots> = take off text @ drop off text" using u t by simp
    finally show ?thesis by simp
  next
    case False
    then have s: "segment text = units" by (auto simp: segment_def f)
    then have "\<not> off < length text" using False assms by simp
    then show ?thesis using s t by simp
  qed
qed

lemma reconstruct_loop_spaced:
  "spaced (v # us) \<Longrightarrow>
   reconstruct_loop result (Some v) us = result @ concat (map unit_text us)"
proof (induction us arbitrary: result v)
  case Nil
  show ?case by simp
next
  case (Cons w ws)
  then have "spaced (w # ws)" "hasSpace (suffix v) \<or> hasSpace (prefix w)" by simp_all
  then show ?case using Cons.IH [of w "result @ unit_text w"] by (simp add: unit_text_def)
qed

lemma reconstruct_spaced: "spaced us \<Longrightarrow> reconstruct us = concat (map unit_text us)"
proof (cases us)
  case Nil
  then show ?thesis by (simp add: reconstruct_def)
next
  case (Cons u ws)
  assume "spaced us"
  then show ?thesis
    using reconstruct_loop_spaced [of u ws "unit_text u"] Cons
    by (simp add: reconstruct_def unit_text_def)
qed

text \<open>
  C1, where it holds. When \<open>segment\<close> returns at least one unit and there is
  whitespace between each two neighbouring units, \<open>reconstruct\<close> gives the text back,
  character by character.
\<close>

theorem segment_round_trip:
  assumes "segment T \<noteq> []" "spaced (segment T)"
  shows "reconstruct (segment T) = T \<and> trim (reconstruct (segment T)) = trim T"
  using reconstruct_spaced [OF assms(2)] segment_tiles [OF assms(1)] by simp

lemma round_trip_example:
  "segment ''Hello world. This is a test.'' \<noteq> [] \<and> spaced (segment ''Hello world. This is a test.'')"
  by code_simp

theorem segment_round_trip_witness:
  "reconstruct (segment ''Hello world. This is a test.'') = ''Hello world. This is a test.''"
  using segment_round_trip [of "''Hello world. This is a test.''"] round_trip_example by simp

end
